theory Spec2Isabelle
  imports Main
begin

section \<open>Regular expressions as the extractor uses them\<close>

text \<open>
  The module \<open>wikidump/extractors/doi.py\<close> does all its lexing with regular expressions
  (the \<open>regex\<close> package, imported as \<open>re\<close>). A text is a Python \<open>str\<close>; here it is a
  \<open>string\<close>, one \<open>char\<close> per code point, so the texts covered are those over the code
  points 0 to 255 and \<open>length\<close> counts what Python's \<open>len\<close> counts.

  The patterns of the module use literals, character classes, greedy repetition of a
  character class, sequence, ordered alternation and the greedy option \<open>(...)?\<close>. A
  backtracking matcher tries the alternatives in a fixed order; \<open>rmatch\<close> returns, for a
  pattern and the text at the current position, what is left of the text after every way
  of matching, in the order in which the matcher finds them. The match the matcher reports
  is the first one.
\<close>

datatype rx =
    Lit string
  | Cls "char \<Rightarrow> bool"
  | Rep nat "char \<Rightarrow> bool"
  | Seq rx rx
  | Alt rx rx
  | Opt rx

text \<open>
  Under the flag \<open>re.I\<close> a literal letter matches both of its cases. Every literal letter of
  the module's patterns is an ASCII letter, whose only case variants below code point 256
  are its ASCII upper and lower case, so \<open>chr_eq\<close> folds the ASCII letters only; for a
  pattern with a literal letter outside ASCII the package would fold that letter too.
\<close>

definition ascii_lower :: "char \<Rightarrow> char" where
  "ascii_lower c =
     (if 65 \<le> (of_char c :: nat) \<and> (of_char c :: nat) \<le> 90
      then char_of ((of_char c :: nat) + 32) else c)"

definition chr_eq :: "bool \<Rightarrow> char \<Rightarrow> char \<Rightarrow> bool" where
  "chr_eq ci c d = (if ci then ascii_lower c = ascii_lower d else c = d)"

fun lit_match :: "bool \<Rightarrow> string \<Rightarrow> string \<Rightarrow> string option" where
  "lit_match ci [] s = Some s"
| "lit_match ci (c # cs) [] = None"
| "lit_match ci (c # cs) (d # ds) = (if chr_eq ci c d then lit_match ci cs ds else None)"

text \<open>
  \<open>Rep n P\<close> is \<open>[P]{n,}\<close>: greedy, so the longest run is tried first and shorter ones
  (down to \<open>n\<close> characters) after it.
\<close>

fun rmatch :: "bool \<Rightarrow> rx \<Rightarrow> string \<Rightarrow> string list" where
  "rmatch ci (Lit w) s = (case lit_match ci w s of None \<Rightarrow> [] | Some t \<Rightarrow> [t])"
| "rmatch ci (Cls P) s = (case s of [] \<Rightarrow> [] | d # t \<Rightarrow> if P d then [t] else [])"
| "rmatch ci (Rep n P) s =
     map (\<lambda>j. drop j s) (rev [n ..< Suc (length (takeWhile P s))])"
| "rmatch ci (Seq a b) s = concat (map (rmatch ci b) (rmatch ci a s))"
| "rmatch ci (Alt a b) s = rmatch ci a s @ rmatch ci b s"
| "rmatch ci (Opt a) s = rmatch ci a s @ [s]"

text \<open>
  \<open>rx_match\<close> is \<open>pattern.match\<close> at the current position: the number of characters of the
  first match, or \<open>None\<close> when the pattern does not match there.
\<close>

definition rx_match :: "bool \<Rightarrow> rx \<Rightarrow> string \<Rightarrow> nat option" where
  "rx_match ci r s =
     (case rmatch ci r s of [] \<Rightarrow> None | t # _ \<Rightarrow> Some (length s - length t))"

fun alts :: "rx list \<Rightarrow> rx" where
  "alts [] = Cls (\<lambda>c. False)"
| "alts [r] = r"
| "alts (r # rs) = Alt r (alts rs)"

subsection \<open>Character classes\<close>

text \<open>
  Line feed and carriage return, the class \<open>\s\<close> (the code points below 256 with the
  Unicode property White_Space), the class \<open>\w\<close> (letters, digits and the underscore,
  with the alphabetic code points of the range 128 to 255) and the dot, which matches
  every character but the line feed.
\<close>

definition LF :: char where "LF = CHR 0x0A"
definition CR :: char where "CR = CHR 0x0D"

definition is_digit :: "char \<Rightarrow> bool" where
  "is_digit c = (48 \<le> (of_char c :: nat) \<and> (of_char c :: nat) \<le> 57)"

definition is_space :: "char \<Rightarrow> bool" where
  "is_space c = ((of_char c :: nat) \<in> {9, 10, 11, 12, 13, 32, 133, 160})"

definition is_word :: "char \<Rightarrow> bool" where
  "is_word c =
     (let n = (of_char c :: nat) in
        (48 \<le> n \<and> n \<le> 57) \<or> (65 \<le> n \<and> n \<le> 90) \<or> n = 95 \<or> (97 \<le> n \<and> n \<le> 122) \<or>
        n = 170 \<or> n = 181 \<or> n = 186 \<or> (192 \<le> n \<and> n \<le> 214) \<or>
        (216 \<le> n \<and> n \<le> 246) \<or> (248 \<le> n \<and> n \<le> 255))"

definition is_dot :: "char \<Rightarrow> bool" where
  "is_dot c = (c \<noteq> LF)"

definition is_break :: "char \<Rightarrow> bool" where
  "is_break c = (c = LF \<or> c = CR)"

definition not_tag_end :: "char \<Rightarrow> bool" where
  "not_tag_end c = (c \<noteq> CHR ''>'' \<and> c \<noteq> LF \<and> c \<noteq> CR)"

definition is_punct :: "char \<Rightarrow> bool" where
  "is_punct c = (c = CHR '','' \<or> c = CHR ''.'' \<or> c = CHR '';'' \<or> c = CHR ''!'')"

definition is_url_end :: "char \<Rightarrow> bool" where
  "is_url_end c = (c = CHR ''?'' \<or> c = CHR ''#'')"

section \<open>The lexicon\<close>

text \<open>
  \<^verbatim>\<open>DOI_START_RE = re.compile(r'10\.[0-9]{4,}/')\<close>
\<close>

definition DOI_START_RE :: rx where
  "DOI_START_RE = Seq (Lit ''10.'') (Seq (Rep 4 is_digit) (Lit ''/''))"

definition HTML_TAGS :: "string list" where
  "HTML_TAGS = [''ref'', ''span'', ''div'', ''table'', ''h1'', ''h2'', ''h3'', ''h4'', ''h5'', ''h6'',
     ''b'', ''u'', ''i'', ''s'', ''ins'', ''del'', ''code'', ''tt'', ''blockquote'',
     ''pre'']"

text \<open>
  \<^verbatim>\<open>TAGS_RE = re.compile(r'<(/\s*)?(' + '|'.join(HTML_TAGS) + ')(\s[^>\n\r]+)?>', re.I)\<close>
\<close>

definition TAGS_RE :: rx where
  "TAGS_RE =
     Seq (Lit ''<'')
       (Seq (Opt (Seq (Lit ''/'') (Rep 0 is_space)))
         (Seq (alts (map Lit HTML_TAGS))
           (Seq (Opt (Seq (Cls is_space) (Rep 1 not_tag_end)))
             (Lit ''>''))))"

text \<open>The pairs of \<open>LEXICON\<close>, pattern first and token name second, in the order of the source.\<close>

definition LEXICON :: "(rx \<times> string) list" where
  "LEXICON = [
     (DOI_START_RE,            ''doi_start''),
     (Lit ''('',                ''open_paren''),
     (Lit '')'',                ''close_paren''),
     (Lit ''['',                ''open_bracket''),
     (Lit '']'',                ''close_bracket''),
     (Lit ''<!--'',             ''comment_start''),
     (Lit ''-->'',              ''comment_end''),
     (TAGS_RE,                 ''tag''),
     (Lit ''<'',                ''open_angle''),
     (Lit ''>'',                ''close_angle''),
     (Lit ''{'',                ''open_curly''),
     (Lit ''}'',                ''close_curly''),
     (Lit ''|'',                ''pipe''),
     (Cls is_punct,            ''punct''),
     (Cls is_url_end,          ''url_end''),
     (Rep 1 is_break,          ''break''),
     (Rep 1 is_space,          ''whitespace''),
     (Rep 1 is_word,           ''word''),
     (Cls is_dot,              ''etc'')
   ]"

section \<open>The lexer\<close>

text \<open>
  The lexer joins the patterns of a lexicon into one alternation of named groups,
  \<^verbatim>\<open>'|'.join("(?P<{0}>{1})".format(name, pattern) for pattern, name in lexicon)\<close>,
  so at a position the first pattern of the list that matches decides the match, and
  \<open>match.lastgroup\<close> is its name.
\<close>

fun first_match :: "bool \<Rightarrow> (rx \<times> string) list \<Rightarrow> string \<Rightarrow> (string \<times> nat) option" where
  "first_match ci [] s = None"
| "first_match ci ((r, name) # lx) s =
     (case rx_match ci r s of
        Some n \<Rightarrow> Some (name, n)
      | None \<Rightarrow> first_match ci lx s)"

text \<open>
  \<open>finditer\<close>, and the loop of \<open>tokenize_search\<close> that searches again from \<open>match.end()\<close>: the
  search for the next match tries the current position and moves one character on where
  nothing matches. Each match gives the token \<open>(match.lastgroup, match.group(0))\<close>. After an
  empty match the scan moves one character on, where the package first looks for a
  non-empty match at the same position; the two differ only for a lexicon with a pattern
  that matches the empty string, and no pattern of \<open>LEXICON\<close> does
  (\<open>lexicon_match_bounds\<close> below).
\<close>

function scan :: "bool \<Rightarrow> (rx \<times> string) list \<Rightarrow> string \<Rightarrow> (string \<times> string) list" where
  "scan ci lx [] =
     (case first_match ci lx [] of None \<Rightarrow> [] | Some (name, n) \<Rightarrow> [(name, [])])"
| "scan ci lx (c # cs) =
     (case first_match ci lx (c # cs) of
        None \<Rightarrow> scan ci lx cs
      | Some (name, n) \<Rightarrow> (name, take n (c # cs)) # scan ci lx (drop (max n 1) (c # cs)))"
  by pat_completeness auto
termination
  by (relation "measure (\<lambda>(ci, lx, s). length s)") auto

text \<open>
  \<^verbatim>\<open>group_regex = re.compile(pattern, re.I|re.U|re.M)\<close> and
  \<^verbatim>\<open>_lexicon_re = re.compile(_lexicon_pattern, re.I|re.U)\<close>: both ignore case. The flag
  \<open>re.M\<close> changes the anchors only, and the lexicon has none.
\<close>

definition tokenize_finditer :: "string \<Rightarrow> (rx \<times> string) list \<Rightarrow> (string \<times> string) list" where
  "tokenize_finditer txt lexicon = scan True lexicon txt"

definition tokenize_search :: "string \<Rightarrow> nat \<Rightarrow> (string \<times> string) list" where
  "tokenize_search txt start = scan True LEXICON (drop start txt)"

section \<open>The identifier scanner\<close>

datatype error = StopIteration | AssertionError | KeyError

text \<open>
  \<open>Identifier\<close>, \<open>Span\<close> and \<open>CaptureResult\<close> are the tuples of \<open>extractors/common.py\<close>, built
  positionally by this module: \<^verbatim>\<open>Identifier('doi', id)\<close>, \<^verbatim>\<open>Span(begin_pos, end_pos)\<close> and
  \<^verbatim>\<open>CaptureResult(identifier, span)\<close>.
\<close>

datatype ident = Identifier (id_type: string) (id_text: string)

datatype span = Span (span_begin: nat) (span_end: nat)

datatype capture_result = CaptureResult (capture_data: ident) (capture_span: span)

text \<open>
  \<^verbatim>\<open>_punctuation_at_end_re = re.compile(r'[\.,!]+$')\<close>. The pattern is compiled without
  \<open>re.M\<close>, so \<open>$\<close> matches at the end of the string and just before a line feed that is the
  last character. \<open>punctuation_at_end_sub\<close> is \<^verbatim>\<open>_punctuation_at_end_re.sub('', s)\<close>: every
  match, found from left to right, is deleted.
\<close>

definition is_end_punct :: "char \<Rightarrow> bool" where
  "is_end_punct c = (c = CHR ''.'' \<or> c = CHR '','' \<or> c = CHR ''!'')"

definition at_dollar :: "string \<Rightarrow> bool" where
  "at_dollar s = (s = [] \<or> s = [LF])"

definition punctuation_at_end_match :: "string \<Rightarrow> nat option" where
  "punctuation_at_end_match s =
     (case filter at_dollar (rmatch False (Rep 1 is_end_punct) s) of
        [] \<Rightarrow> None
      | t # _ \<Rightarrow> Some (length s - length t))"

function punctuation_at_end_sub :: "string \<Rightarrow> string" where
  "punctuation_at_end_sub [] = []"
| "punctuation_at_end_sub (c # cs) =
     (case punctuation_at_end_match (c # cs) of
        None \<Rightarrow> c # punctuation_at_end_sub cs
      | Some n \<Rightarrow> punctuation_at_end_sub (drop (max n 1) (c # cs)))"
  by pat_completeness auto
termination
  by (relation "measure length") auto

text \<open>
  The loop of \<open>read_doi\<close>. The token stream is a \<open>peekable\<close>: \<open>tokens.peek(None)\<close> looks at the
  head of the list, \<open>next(tokens)\<close> takes it off. \<open>depth\<close> is a
  \<^verbatim>\<open>defaultdict(lambda: 0)\<close>, a total function from keys to Python integers. The loop
  returns the buffer and the tokens it did not consume.
\<close>

definition terminators :: "string list" where
  "terminators = [''url_end'', ''break'', ''whitespace'', ''tag'', ''pipe'',
     ''comment_start'', ''comment_end'']"

fun read_loop ::
  "(string \<Rightarrow> int) \<Rightarrow> string list \<Rightarrow> (string \<times> string) list
     \<Rightarrow> string list \<times> (string \<times> string) list" where
  "read_loop depth doi_buffer [] = (doi_buffer, [])"
| "read_loop depth doi_buffer ((name, m) # tokens) =
     (if name \<in> set terminators then (doi_buffer, (name, m) # tokens)
      else if name = ''open_bracket'' then
        read_loop (depth(''bracket'' := depth ''bracket'' + 1)) (doi_buffer @ [m]) tokens
      else if name = ''open_curly'' then
        read_loop (depth(''curly'' := depth ''curly'' + 1)) (doi_buffer @ [m]) tokens
      else if name = ''close_bracket'' then
        (if depth ''bracket'' > 0 then
           read_loop (depth(''bracket'' := depth ''bracket'' - 1)) (doi_buffer @ [m]) tokens
         else (doi_buffer, (name, m) # tokens))
      else if name = ''close_curly'' then
        (if depth ''curly'' > 0 then
           read_loop (depth(''curly'' := depth ''curly'' - 1)) (doi_buffer @ [m]) tokens
         else (doi_buffer, (name, m) # tokens))
      else read_loop depth (doi_buffer @ [m]) tokens)"

text \<open>
  \<open>read_doi\<close> returns the identifier and the tokens left in the stream. \<open>tokens.peek()\<close> on
  an exhausted stream raises \<open>StopIteration\<close>; a first token of another kind fails the
  assertion.
\<close>

fun read_doi ::
  "(string \<times> string) list \<Rightarrow> error + (ident \<times> (string \<times> string) list)" where
  "read_doi [] = Inl StopIteration"
| "read_doi ((name, m) # tokens) =
     (if name \<noteq> ''doi_start'' then Inl AssertionError
      else
        (case read_loop (\<lambda>_. 0) [m] tokens of
           (doi_buffer, rest) \<Rightarrow>
             Inr (Identifier ''doi'' (punctuation_at_end_sub (concat doi_buffer)), rest)))"

section \<open>Span search\<close>

text \<open>
  \<open>pattern.finditer(txt)\<close> as the list of \<open>(match.start(), match.end())\<close>: the matches from
  left to right, none overlapping. \<open>DOI_START_RE\<close> is compiled without flags.
\<close>

function find_spans :: "bool \<Rightarrow> rx \<Rightarrow> nat \<Rightarrow> string \<Rightarrow> (nat \<times> nat) list" where
  "find_spans ci r pos [] =
     (case rx_match ci r [] of None \<Rightarrow> [] | Some n \<Rightarrow> [(pos, pos)])"
| "find_spans ci r pos (c # cs) =
     (case rx_match ci r (c # cs) of
        None \<Rightarrow> find_spans ci r (Suc pos) cs
      | Some n \<Rightarrow> (pos, pos + n) # find_spans ci r (pos + max n 1) (drop (max n 1) (c # cs)))"
  by pat_completeness auto
termination
  by (relation "measure (\<lambda>(ci, r, pos, s). length s)") auto

definition finditer :: "rx \<Rightarrow> string \<Rightarrow> (nat \<times> nat) list" where
  "finditer r txt = find_spans False r 0 txt"

text \<open>
  The body of the \<open>for\<close> loop of \<open>extract_search\<close>, over the matches still to come, with
  \<open>last_end\<close> as the loop's state. The generator's result is the list of the captures it
  yields and the exception that ended it, if any. The module exports \<open>extract_search\<close> under
  the name \<open>extract\<close> as well.
\<close>

fun extract_loop ::
  "string \<Rightarrow> nat \<Rightarrow> (nat \<times> nat) list \<Rightarrow> capture_result list \<times> error option" where
  "extract_loop txt last_end [] = ([], None)"
| "extract_loop txt last_end ((begin_pos, match_end) # matches) =
     (if begin_pos > last_end then
        (case read_doi (tokenize_search txt begin_pos) of
           Inl e \<Rightarrow> ([], Some e)
         | Inr (ident, rest) \<Rightarrow>
             (let end_pos = begin_pos + length (id_text ident) in
                (case extract_loop txt end_pos matches of
                   (results, e) \<Rightarrow> (CaptureResult ident (Span begin_pos end_pos) # results, e))))
      else extract_loop txt (max match_end last_end) matches)"

definition extract_search :: "string \<Rightarrow> capture_result list \<times> error option" where
  "extract_search txt = extract_loop txt 0 (finditer DOI_START_RE txt)"

section \<open>The bibliography classifier\<close>

text \<open>
  \<open>processors/bibliography_extractor.py\<close> works with collaborators that are not part of
  the module: the synonym table \<open>languages.bibliography\<close>, the scorer of the \<open>fuzzywuzzy\<close>
  package, \<open>utils.remove_comments\<close>, the section splitter \<open>extractors.sections\<close> and the
  \<open>to_json\<close> of a timestamp. They are the fields of a configuration that every function
  below takes. \<open>fuzzy_score cfg query choice\<close> is the score (an integer) that
  \<open>fuzzywuzzy.process.extractOne\<close> gives to \<open>choice\<close> for \<open>query\<close>.
\<close>

record Section =
  sec_name :: string
  sec_level :: int
  sec_full_body :: string

record config =
  languages_bibliography :: "string \<rightharpoonup> string list"
  fuzzy_score :: "string \<Rightarrow> string \<Rightarrow> int"
  utils_remove_comments :: "string \<Rightarrow> string"
  extractors_sections :: "string \<Rightarrow> Section list"
  timestamp_to_json :: "int \<Rightarrow> string"

definition FUZZY_MATCH_CUTOFF :: int where
  "FUZZY_MATCH_CUTOFF = 91"

text \<open>
  \<open>fuzzywuzzy.process.extractOne(query, choices, score_cutoff=c)\<close> scores every choice, keeps
  the pairs \<open>(choice, score)\<close> whose score is at least \<open>c\<close> and returns the one of highest
  score (the first of them, as Python's \<open>max\<close> does), or \<open>None\<close> when no pair is kept.
\<close>

fun max_by_score :: "(string \<times> int) \<Rightarrow> (string \<times> int) list \<Rightarrow> (string \<times> int)" where
  "max_by_score best [] = best"
| "max_by_score best (p # ps) = max_by_score (if snd p > snd best then p else best) ps"

definition extractOne ::
  "(string \<Rightarrow> string \<Rightarrow> int) \<Rightarrow> string \<Rightarrow> string list \<Rightarrow> int \<Rightarrow> (string \<times> int) option" where
  "extractOne score query choices score_cutoff =
     (case filter (\<lambda>p. snd p \<ge> score_cutoff) (map (\<lambda>c. (c, score query c)) choices) of
        [] \<Rightarrow> None
      | p # ps \<Rightarrow> Some (max_by_score p ps))"

text \<open>
  The body of \<open>is_bibliography\<close>. A language without an entry in the table raises
  \<open>KeyError\<close>; \<open>bool(match)\<close> is false for \<open>None\<close> and true for a pair.
\<close>

definition is_bibliography :: "config \<Rightarrow> string \<Rightarrow> string \<Rightarrow> int \<Rightarrow> error + bool" where
  "is_bibliography cfg section_name language score_cutoff =
     (case languages_bibliography cfg language of
        None \<Rightarrow> Inl KeyError
      | Some bibliography_synonyms \<Rightarrow>
          Inr (extractOne (fuzzy_score cfg) section_name bibliography_synonyms score_cutoff
                 \<noteq> None))"

text \<open>
  \<^verbatim>\<open>@functools.lru_cache(maxsize=500)\<close>: the cache holds pairs of a key (the arguments of
  the call) and the value returned, the most recently used first. A hit returns the stored
  value and moves the pair to the front; a miss calls the function, stores the value at
  the front and drops the least recently used pair when the cache is over its size. A call
  that raises stores nothing.
\<close>

definition lru_call ::
  "nat \<Rightarrow> ('k \<Rightarrow> error + 'v) \<Rightarrow> ('k \<times> 'v) list \<Rightarrow> 'k \<Rightarrow> (error + 'v) \<times> ('k \<times> 'v) list" where
  "lru_call maxsize f cache key =
     (case map_of cache key of
        Some v \<Rightarrow> (Inr v, (key, v) # filter (\<lambda>p. fst p \<noteq> key) cache)
      | None \<Rightarrow>
          (case f key of
             Inl e \<Rightarrow> (Inl e, cache)
           | Inr v \<Rightarrow> (Inr v, take maxsize ((key, v) # cache))))"

text \<open>
  The key of a call is the tuple of its arguments: the section name, the language and the
  cutoff where the caller passes one (\<open>None\<close> where it leaves the default).
\<close>

definition is_bibliography_key :: "config \<Rightarrow> (string \<times> string \<times> int option) \<Rightarrow> error + bool" where
  "is_bibliography_key cfg key =
     (case key of (section_name, language, cutoff) \<Rightarrow>
        is_bibliography cfg section_name language
          (case cutoff of None \<Rightarrow> FUZZY_MATCH_CUTOFF | Some c \<Rightarrow> c))"

definition is_bibliography_cached ::
  "config \<Rightarrow> ((string \<times> string \<times> int option) \<times> bool) list \<Rightarrow> (string \<times> string \<times> int option)
     \<Rightarrow> (error + bool) \<times> ((string \<times> string \<times> int option) \<times> bool) list" where
  "is_bibliography_cached cfg cache key = lru_call 500 (is_bibliography_key cfg) cache key"

text \<open>A run of calls through the cache: the results in order and the cache at the end.\<close>

fun cached_calls ::
  "config \<Rightarrow> ((string \<times> string \<times> int option) \<times> bool) list \<Rightarrow> (string \<times> string \<times> int option) list
     \<Rightarrow> (error + bool) list \<times> ((string \<times> string \<times> int option) \<times> bool) list" where
  "cached_calls cfg cache [] = ([], cache)"
| "cached_calls cfg cache (key # keys) =
     (case is_bibliography_cached cfg cache key of
        (r, cache') \<Rightarrow>
          (case cached_calls cfg cache' keys of (rs, cache'') \<Rightarrow> (r # rs, cache'')))"

section \<open>The streaming pipeline\<close>

record user =
  user_id :: "int option"
  user_text :: "string option"

text \<open>A revision and a page as the dump reader (\<open>mwxml\<close>) hands them over.\<close>

record mw_revision =
  mw_id :: int
  mw_parent_id :: "int option"
  mw_user :: "user option"
  mw_minor :: bool
  mw_comment :: "string option"
  mw_model :: string
  mw_format :: string
  mw_timestamp :: int
  mw_text :: "string option"

record mw_page =
  mwp_id :: int
  mwp_namespace :: int
  mwp_title :: string
  mwp_revisions :: "mw_revision list"

text \<open>The tuples \<open>Revision\<close> and \<open>Page\<close> that the pipeline yields.\<close>

record revision =
  r_id :: int
  r_parent_id :: "int option"
  r_user :: "user option"
  r_minor :: bool
  r_comment :: "string option"
  r_model :: string
  r_format :: string
  r_timestamp :: string
  r_text :: string
  r_sections :: "Section list"

record page =
  p_id :: int
  p_namespace :: int
  p_title :: string
  p_revisions :: "revision list"

text \<open>
  The dictionary \<open>stats\<close> of \<open>main\<close>. The two tables of section names are
  \<open>collections.Counter\<close>s: a key that is absent reads as 0.
\<close>

record stats =
  start_time :: "int option"
  end_time :: "int option"
  revisions_analyzed :: int
  pages_analyzed :: int
  section_names_global :: "string \<rightharpoonup> int"
  section_names_last_revision :: "string \<rightharpoonup> int"

definition counter_get :: "(string \<rightharpoonup> int) \<Rightarrow> string \<Rightarrow> int" where
  "counter_get c k = (case c k of None \<Rightarrow> 0 | Some v \<Rightarrow> v)"

definition counter_inc :: "(string \<rightharpoonup> int) \<Rightarrow> string \<Rightarrow> (string \<rightharpoonup> int)" where
  "counter_inc c k = c(k \<mapsto> counter_get c k + 1)"

definition initial_stats :: stats where
  "initial_stats =
     \<lparr> start_time = None, end_time = None, revisions_analyzed = 0, pages_analyzed = 0,
       section_names_global = Map.empty, section_names_last_revision = Map.empty \<rparr>"

text \<open>
  The pipeline mutates \<open>stats\<close> in place, one \<open>+= 1\<close> at a time. Each of the four statements
  that do so is an update; the functions below return the updates they perform, in order,
  and \<open>apply_update\<close> is what one update does to \<open>stats\<close>.
\<close>

datatype update =
    IncGlobal string
  | IncLastRevision string
  | IncRevisionsAnalyzed
  | IncPagesAnalyzed

fun apply_update :: "stats \<Rightarrow> update \<Rightarrow> stats" where
  "apply_update st (IncGlobal k) =
     st\<lparr>section_names_global := counter_inc (section_names_global st) k\<rparr>"
| "apply_update st (IncLastRevision k) =
     st\<lparr>section_names_last_revision := counter_inc (section_names_last_revision st) k\<rparr>"
| "apply_update st IncRevisionsAnalyzed = st\<lparr>revisions_analyzed := revisions_analyzed st + 1\<rparr>"
| "apply_update st IncPagesAnalyzed = st\<lparr>pages_analyzed := pages_analyzed st + 1\<rparr>"

text \<open>\<open>stats_trace st ups\<close> lists \<open>stats\<close> before the first update and after each one.\<close>

fun stats_trace :: "stats \<Rightarrow> update list \<Rightarrow> stats list" where
  "stats_trace st [] = [st]"
| "stats_trace st (u # us) = st # stats_trace (apply_update st u) us"

text \<open>
  The list comprehension that keeps the sections \<open>is_bibliography(section.name, language)\<close>
  accepts. The pipeline calls the function through its cache; by \<open>cached_calls_transparent\<close>
  below a call through the cache returns what the body returns, so the body stands here.
\<close>

fun bibliography_filter :: "config \<Rightarrow> string \<Rightarrow> Section list \<Rightarrow> error + Section list" where
  "bibliography_filter cfg language [] = Inr []"
| "bibliography_filter cfg language (s # ss) =
     (case is_bibliography cfg (sec_name s) language FUZZY_MATCH_CUTOFF of
        Inl e \<Rightarrow> Inl e
      | Inr b \<Rightarrow>
          (case bibliography_filter cfg language ss of
             Inl e \<Rightarrow> Inl e
           | Inr kept \<Rightarrow> Inr (if b then s # kept else kept)))"

definition bibliography_sections :: "config \<Rightarrow> string \<Rightarrow> mw_revision \<Rightarrow> error + Section list" where
  "bibliography_sections cfg language mw_revision =
     bibliography_filter cfg language
       (extractors_sections cfg
          (utils_remove_comments cfg (case mw_text mw_revision of None \<Rightarrow> [] | Some t \<Rightarrow> t)))"

text \<open>The loop over \<open>bibliography_sections\<close> that counts the section names.\<close>

fun section_updates :: "bool \<Rightarrow> Section list \<Rightarrow> update list" where
  "section_updates is_last_revision [] = []"
| "section_updates is_last_revision (s # ss) =
     IncGlobal (sec_name s) #
       (if is_last_revision then [IncLastRevision (sec_name s)] else []) @
       section_updates is_last_revision ss"

text \<open>
  \<open>extract_revisions\<close>, consumed to its end: the revisions it yields, the updates it makes
  and the exception that stopped it, if any. The revisions of the page sit behind a
  \<open>peekable\<close>, and \<open>is_last_revision\<close> is true when nothing follows the current one.
\<close>

fun extract_revisions ::
  "config \<Rightarrow> string \<Rightarrow> bool \<Rightarrow> mw_revision list \<Rightarrow> revision list \<times> update list \<times> error option" where
  "extract_revisions cfg language only_last_revision [] = ([], [], None)"
| "extract_revisions cfg language only_last_revision (mw_revision # revisions) =
     (let is_last_revision = (revisions = []) in
        if only_last_revision \<and> \<not> is_last_revision then
          extract_revisions cfg language only_last_revision revisions
        else
          (case bibliography_sections cfg language mw_revision of
             Inl e \<Rightarrow> ([], [], Some e)
           | Inr secs \<Rightarrow>
               (let rev = \<lparr> r_id = mw_id mw_revision,
                            r_parent_id = mw_parent_id mw_revision,
                            r_user = mw_user mw_revision,
                            r_minor = mw_minor mw_revision,
                            r_comment = mw_comment mw_revision,
                            r_model = mw_model mw_revision,
                            r_format = mw_format mw_revision,
                            r_timestamp = timestamp_to_json cfg (mw_timestamp mw_revision),
                            r_text = concat (map sec_full_body secs),
                            r_sections = secs \<rparr>
                in (case extract_revisions cfg language only_last_revision revisions of
                      (revs, ups, e) \<Rightarrow>
                        (rev # revs,
                         section_updates is_last_revision secs @ [IncRevisionsAnalyzed] @ ups,
                         e)))))"

text \<open>
  \<open>extract_pages\<close>, consumed as the template of \<open>main\<close> consumes it: page by page, and the
  revisions of a page to their end before the next page is asked for. A page outside
  namespace 0 is skipped; \<open>pages_analyzed\<close> is counted when the generator is resumed
  after the page.
\<close>

fun extract_pages ::
  "config \<Rightarrow> string \<Rightarrow> bool \<Rightarrow> mw_page list \<Rightarrow> page list \<times> update list \<times> error option" where
  "extract_pages cfg language only_last_revision [] = ([], [], None)"
| "extract_pages cfg language only_last_revision (mw_page # dump) =
     (if mwp_namespace mw_page \<noteq> 0 then extract_pages cfg language only_last_revision dump
      else
        (case extract_revisions cfg language only_last_revision (mwp_revisions mw_page) of
           (revs, ups, Some e) \<Rightarrow>
             ([\<lparr> p_id = mwp_id mw_page, p_namespace = mwp_namespace mw_page,
                  p_title = mwp_title mw_page, p_revisions = revs \<rparr>], ups, Some e)
         | (revs, ups, None) \<Rightarrow>
             (case extract_pages cfg language only_last_revision dump of
                (pages, ups', e) \<Rightarrow>
                  (\<lparr> p_id = mwp_id mw_page, p_namespace = mwp_namespace mw_page,
                      p_title = mwp_title mw_page, p_revisions = revs \<rparr> # pages,
                   ups @ [IncPagesAnalyzed] @ ups', e))))"

text \<open>The updates of a whole run, and \<open>stats\<close> at its end, from the \<open>stats\<close> that \<open>main\<close> creates.\<close>

definition pipeline_updates :: "config \<Rightarrow> string \<Rightarrow> bool \<Rightarrow> mw_page list \<Rightarrow> update list" where
  "pipeline_updates cfg language only_last_revision dump =
     fst (snd (extract_pages cfg language only_last_revision dump))"

definition final_stats :: "config \<Rightarrow> string \<Rightarrow> bool \<Rightarrow> mw_page list \<Rightarrow> stats" where
  "final_stats cfg language only_last_revision dump =
     foldl apply_update initial_stats (pipeline_updates cfg language only_last_revision dump)"

section \<open>Auxiliary notions for the statements\<close>

text \<open>The least number of characters a pattern consumes.\<close>

fun min_len :: "rx \<Rightarrow> nat" where
  "min_len (Lit w) = length w"
| "min_len (Cls P) = 1"
| "min_len (Rep n P) = n"
| "min_len (Seq a b) = min_len a + min_len b"
| "min_len (Alt a b) = min (min_len a) (min_len b)"
| "min_len (Opt a) = 0"

text \<open>
  \<open>rx_sat Q ci r\<close>: every character that the pattern \<open>r\<close> can consume satisfies \<open>Q\<close>.
\<close>

fun rx_sat :: "(char \<Rightarrow> bool) \<Rightarrow> bool \<Rightarrow> rx \<Rightarrow> bool" where
  "rx_sat Q ci (Lit w) = (\<forall>c \<in> set w. \<forall>d. chr_eq ci c d \<longrightarrow> Q d)"
| "rx_sat Q ci (Cls P) = (\<forall>d. P d \<longrightarrow> Q d)"
| "rx_sat Q ci (Rep n P) = (\<forall>d. P d \<longrightarrow> Q d)"
| "rx_sat Q ci (Seq a b) = (rx_sat Q ci a \<and> rx_sat Q ci b)"
| "rx_sat Q ci (Alt a b) = (rx_sat Q ci a \<and> rx_sat Q ci b)"
| "rx_sat Q ci (Opt a) = rx_sat Q ci a"

text \<open>
  A text that \<open>DOI_START_RE\<close> matches from its first character to its last: some way of
  matching leaves nothing over. The text of every \<open>doi_start\<close> token of the lexer is such
  a text (\<open>lexer_doi_start_text\<close> below).
\<close>

definition doi_start_text :: "string \<Rightarrow> bool" where
  "doi_start_text m = ([] \<in> set (rmatch False DOI_START_RE m))"

text \<open>The invariant of the two counters of section names.\<close>

definition counters_consistent :: "stats \<Rightarrow> bool" where
  "counters_consistent st =
     (\<forall>k. counter_get (section_names_last_revision st) k \<le> counter_get (section_names_global st) k)"

subsection \<open>Example inputs\<close>

text \<open>
  A configuration whose scorer gives 100 to an identical title and 20 to any other, whose
  section splitter finds the sections \<open>Early life\<close> and \<open>References\<close> in every text, and
  a page of three revisions.
\<close>

definition example_config :: config where
  "example_config =
     \<lparr> languages_bibliography = [''en'' \<mapsto> [''References'', ''Bibliography'']],
       fuzzy_score = (\<lambda>q c. if q = c then 100 else 20),
       utils_remove_comments = (\<lambda>t. t),
       extractors_sections =
         (\<lambda>t. [\<lparr> sec_name = ''Early life'', sec_level = 2, sec_full_body = ''Born.'' \<rparr>,
               \<lparr> sec_name = ''References'', sec_level = 2, sec_full_body = t \<rparr>]),
       timestamp_to_json = (\<lambda>t. ''2001-01-15T00:00:00Z'') \<rparr>"

definition example_revision :: "int \<Rightarrow> mw_revision" where
  "example_revision n =
     \<lparr> mw_id = n, mw_parent_id = None, mw_user = None, mw_minor = False, mw_comment = None,
       mw_model = ''wikitext'', mw_format = ''text/x-wiki'', mw_timestamp = n,
       mw_text = Some ''* a source'' \<rparr>"

definition example_page :: mw_page where
  "example_page =
     \<lparr> mwp_id = 1, mwp_namespace = 0, mwp_title = ''Example'',
       mwp_revisions = [example_revision 1, example_revision 2, example_revision 3] \<rparr>"

section \<open>Properties of the matcher and the lexer\<close>

lemma lit_match_length: "lit_match ci w s = Some t \<Longrightarrow> length s = length w + length t"
  by (induction ci w s rule: lit_match.induct) (auto split: if_splits)

lemma rmatch_length: "t \<in> set (rmatch ci r s) \<Longrightarrow> length t + min_len r \<le> length s"
proof (induction r arbitrary: s t)
  case (Lit w)
  then have "lit_match ci w s = Some t" by (auto split: option.splits)
  from lit_match_length[OF this] show ?case by simp
next
  case (Cls P)
  then show ?case by (auto split: list.splits if_splits)
next
  case (Rep n P)
  then obtain j where "n \<le> j" "j \<le> length (takeWhile P s)" "t = drop j s" by auto
  moreover have "length (takeWhile P s) \<le> length s" by (rule length_takeWhile_le)
  ultimately show ?case by simp
next
  case (Seq a b)
  then obtain u where "u \<in> set (rmatch ci a s)" "t \<in> set (rmatch ci b u)" by auto
  with Seq.IH(1)[of u s] Seq.IH(2)[of t u] show ?case by simp
next
  case (Alt a b)
  then show ?case by (auto dest: Alt.IH(1) Alt.IH(2))
next
  case (Opt a)
  then show ?case by (auto dest: Opt.IH)
qed

lemma rx_match_bounds:
  assumes "rx_match ci r s = Some n"
  shows "min_len r \<le> n \<and> n \<le> length s"
proof -
  from assms obtain t ts where t: "rmatch ci r s = t # ts" "n = length s - length t"
    by (auto simp: rx_match_def split: list.splits)
  then have "t \<in> set (rmatch ci r s)" by simp
  from rmatch_length[OF this] t show ?thesis by simp
qed

lemma first_match_Some:
  "first_match ci lx s = Some (k, n) \<Longrightarrow> \<exists>r. (r, k) \<in> set lx \<and> rx_match ci r s = Some n"
  by (induction ci lx s rule: first_match.induct) (auto split: option.splits)

lemma first_match_None:
  "first_match ci lx s = None \<Longrightarrow> (r, k) \<in> set lx \<Longrightarrow> rx_match ci r s = None"
  by (induction ci lx s rule: first_match.induct) (auto split: option.splits)

text \<open>Every pattern of the lexicon consumes at least one character.\<close>

lemma lexicon_min_len: "(r, k) \<in> set LEXICON \<Longrightarrow> 1 \<le> min_len r"
  by (auto simp: LEXICON_def DOI_START_RE_def TAGS_RE_def)

lemma lexicon_match_bounds:
  "first_match True LEXICON s = Some (k, n) \<Longrightarrow> 1 \<le> n \<and> n \<le> length s"
  using first_match_Some lexicon_min_len rx_match_bounds
  by (metis le_trans)

lemma rx_match_Rep1: "P c \<Longrightarrow> rx_match ci (Rep 1 P) (c # cs) \<noteq> None"
  by (simp add: rx_match_def split: list.splits)

lemma rx_match_Cls: "P c \<Longrightarrow> rx_match ci (Cls P) (c # cs) = Some 1"
  by (simp add: rx_match_def)

text \<open>
  The lexicon matches at every position before the end of the text: a line feed starts a
  \<open>break\<close>, and the catch-all \<open>etc\<close> takes any other character.
\<close>

lemma lexicon_total: "first_match True LEXICON (c # cs) \<noteq> None"
proof
  assume n: "first_match True LEXICON (c # cs) = None"
  have b: "(Rep 1 is_break, ''break'') \<in> set LEXICON"
    and e: "(Cls is_dot, ''etc'') \<in> set LEXICON"
    by (simp_all add: LEXICON_def)
  from first_match_None[OF n b] have "\<not> is_break c" using rx_match_Rep1 by blast
  moreover from first_match_None[OF n e] have "\<not> is_dot c" using rx_match_Cls by fastforce
  ultimately show False by (simp add: is_break_def is_dot_def)
qed

lemma lexicon_end: "first_match True LEXICON [] = None"
  by (simp add: LEXICON_def rx_match_def DOI_START_RE_def TAGS_RE_def HTML_TAGS_def)

lemma scan_lexicon_Nil: "scan True LEXICON [] = []"
  by (simp add: lexicon_end)

lemma scan_lexicon_Cons:
  "\<exists>k n. first_match True LEXICON (c # cs) = Some (k, n) \<and> 1 \<le> n \<and> n \<le> length (c # cs) \<and>
     scan True LEXICON (c # cs) = (k, take n (c # cs)) # scan True LEXICON (drop n (c # cs))"
proof -
  from lexicon_total[of c cs] obtain k n
    where f: "first_match True LEXICON (c # cs) = Some (k, n)" by auto
  from lexicon_match_bounds[OF f] have n: "1 \<le> n" "n \<le> length (c # cs)" by auto
  then have "max n 1 = n" by simp
  with f n show ?thesis by (simp del: drop_Suc_Cons take_Suc_Cons)
qed

lemma scan_lossless: "concat (map snd (scan True LEXICON s)) = s"
proof (induction s rule: length_induct)
  case (1 s)
  show ?case
  proof (cases s)
    case Nil
    then show ?thesis by (simp add: scan_lexicon_Nil)
  next
    case (Cons c cs)
    from scan_lexicon_Cons[of c cs] obtain k n where
      n: "1 \<le> n" "n \<le> length (c # cs)" and
      sc: "scan True LEXICON (c # cs) = (k, take n (c # cs)) # scan True LEXICON (drop n (c # cs))"
      by blast
    from n have "length (drop n (c # cs)) < length s" using Cons by simp
    with 1 have "concat (map snd (scan True LEXICON (drop n (c # cs)))) = drop n (c # cs)"
      by blast
    with sc Cons show ?thesis by (simp del: drop_Suc_Cons take_Suc_Cons)
  qed
qed

section \<open>Properties of the trailing-punctuation substitution\<close>

lemma take_takeWhile_prefix:
  assumes "j \<le> length (takeWhile P s)"
  shows "list_all P (take j s)"
proof -
  have "take j s = take j (takeWhile P s @ dropWhile P s)" by simp
  also have "\<dots> = take j (takeWhile P s)" using assms by (simp del: takeWhile_dropWhile_id)
  finally have "set (take j s) \<subseteq> set (takeWhile P s)" by (metis set_take_subset)
  then show ?thesis by (auto simp: list_all_iff dest: set_takeWhileD)
qed

lemma punct_match_Some:
  assumes "punctuation_at_end_match s = Some n"
  shows "1 \<le> n \<and> n \<le> length s \<and> list_all is_end_punct (take n s) \<and> at_dollar (drop n s)"
proof -
  let ?k = "length (takeWhile is_end_punct s)"
  from assms obtain t ts where
    f: "filter at_dollar (rmatch False (Rep 1 is_end_punct) s) = t # ts" and n: "n = length s - length t"
    by (auto simp: punctuation_at_end_match_def split: list.splits)
  then have "t \<in> set (filter at_dollar (rmatch False (Rep 1 is_end_punct) s))" by simp
  then have d: "at_dollar t" and "t \<in> set (rmatch False (Rep 1 is_end_punct) s)" by auto
  then obtain j where j: "1 \<le> j" "j \<le> ?k" "t = drop j s" by auto
  have k: "?k \<le> length s" by (rule length_takeWhile_le)
  with j n have nj: "n = j" by simp
  from take_takeWhile_prefix[OF j(2)] j k d nj show ?thesis by simp
qed

text \<open>A character that is neither trailing punctuation nor a line feed stops every match before it.\<close>

lemma punct_match_None:
  assumes "c \<in> set s" "\<not> is_end_punct c" "c \<noteq> LF"
  shows "punctuation_at_end_match s = None"
proof (rule ccontr)
  assume "punctuation_at_end_match s \<noteq> None"
  then obtain n where "punctuation_at_end_match s = Some n" by auto
  from punct_match_Some[OF this]
  have p: "list_all is_end_punct (take n s)" and d: "at_dollar (drop n s)" by auto
  have "set s = set (take n s) \<union> set (drop n s)" by (metis append_take_drop_id set_append)
  with assms(1) have "c \<in> set (take n s) \<or> c \<in> set (drop n s)" by simp
  with p d assms(2,3) show False by (auto simp: list_all_iff at_dollar_def)
qed

lemma punct_sub_keep:
  assumes "\<not> is_end_punct c" "c \<noteq> LF"
  shows "punctuation_at_end_sub (p @ c # q) = p @ c # punctuation_at_end_sub q"
proof (induction p)
  case Nil
  have "punctuation_at_end_match (c # q) = None" using assms by (intro punct_match_None[of c]) auto
  then show ?case by simp
next
  case (Cons a p)
  have "punctuation_at_end_match (a # p @ c # q) = None"
    using assms by (intro punct_match_None[of c]) auto
  with Cons show ?case by simp
qed

lemma punct_match_all:
  assumes "list_all is_end_punct (c # cs)"
  shows "punctuation_at_end_match (c # cs) = Some (length (c # cs))"
proof -
  have tw: "takeWhile is_end_punct (c # cs) = c # cs"
    using assms by (simp add: list_all_iff)
  have "rev [1 ..< Suc (length (c # cs))] = length (c # cs) # rev [1 ..< length (c # cs)]"
    by simp
  then have "rmatch False (Rep 1 is_end_punct) (c # cs) =
      [] # map (\<lambda>j. drop j (c # cs)) (rev [1 ..< length (c # cs)])"
    by (simp only: rmatch.simps tw list.map drop_all order_refl)
  then show ?thesis by (simp add: punctuation_at_end_match_def at_dollar_def)
qed

text \<open>On a text without line feed the substitution removes the trailing run and nothing else.\<close>

lemma punct_sub_rstrip:
  "LF \<notin> set s \<Longrightarrow> punctuation_at_end_sub s = rev (dropWhile is_end_punct (rev s))"
proof (induction s)
  case Nil
  then show ?case by simp
next
  case (Cons c cs)
  show ?case
  proof (cases "list_all is_end_punct (c # cs)")
    case True
    then have "dropWhile is_end_punct (rev (c # cs)) = []" by (auto simp: list_all_iff)
    moreover have "punctuation_at_end_sub (c # cs) = []"
      using punct_match_all[OF True] by simp
    ultimately show ?thesis by simp
  next
    case False
    then obtain d where d: "d \<in> set (c # cs)" "\<not> is_end_punct d" by (auto simp: list_all_iff)
    with Cons.prems have "d \<noteq> LF" by auto
    from punct_match_None[OF d this] have "punctuation_at_end_sub (c # cs) = c # punctuation_at_end_sub cs"
      by simp
    also have "\<dots> = c # rev (dropWhile is_end_punct (rev cs))" using Cons by simp
    also have "\<dots> = rev (dropWhile is_end_punct (rev (c # cs)))"
    proof (cases "list_all is_end_punct cs")
      case True
      with False have "\<not> is_end_punct c" by simp
      with True show ?thesis by (simp add: dropWhile_append list_all_iff)
    next
      case False
      then show ?thesis by (auto simp add: dropWhile_append list_all_iff)
    qed
    finally show ?thesis .
  qed
qed

section \<open>Properties of the identifier scanner\<close>

text \<open>One turn of the loop either stops in front of the token or consumes and appends it.\<close>

lemma read_loop_turn:
  "read_loop depth doi_buffer ((name, m) # tokens) = (doi_buffer, (name, m) # tokens) \<or>
   (name \<notin> set terminators \<and>
    (\<exists>d. read_loop depth doi_buffer ((name, m) # tokens) = read_loop d (doi_buffer @ [m]) tokens))"
proof (cases "name \<in> set terminators")
  case True
  then show ?thesis by simp
next
  case nt: False
  show ?thesis
  proof (cases "name = ''open_bracket''")
    case True
    with nt have "read_loop depth doi_buffer ((name, m) # tokens) =
        read_loop (depth(''bracket'' := depth ''bracket'' + 1)) (doi_buffer @ [m]) tokens"
      by simp
    with nt show ?thesis by blast
  next
    case ob: False
    show ?thesis
    proof (cases "name = ''open_curly''")
      case True
      with nt ob have "read_loop depth doi_buffer ((name, m) # tokens) =
          read_loop (depth(''curly'' := depth ''curly'' + 1)) (doi_buffer @ [m]) tokens"
        by simp
      with nt show ?thesis by blast
    next
      case oc: False
      show ?thesis
      proof (cases "name = ''close_bracket''")
        case cb: True
        show ?thesis
        proof (cases "depth ''bracket'' > 0")
          case True
          with nt ob oc cb have "read_loop depth doi_buffer ((name, m) # tokens) =
              read_loop (depth(''bracket'' := depth ''bracket'' - 1)) (doi_buffer @ [m]) tokens"
            by simp
          with nt show ?thesis by blast
        next
          case False
          with nt ob oc cb show ?thesis by simp
        qed
      next
        case cb: False
        show ?thesis
        proof (cases "name = ''close_curly''")
          case cc: True
          show ?thesis
          proof (cases "depth ''curly'' > 0")
            case True
            with nt ob oc cb cc have "read_loop depth doi_buffer ((name, m) # tokens) =
                read_loop (depth(''curly'' := depth ''curly'' - 1)) (doi_buffer @ [m]) tokens"
              by simp
            with nt show ?thesis by blast
          next
            case False
            with nt ob oc cb cc show ?thesis by simp
          qed
        next
          case False
          with nt ob oc cb have "read_loop depth doi_buffer ((name, m) # tokens) =
              read_loop depth (doi_buffer @ [m]) tokens"
            by simp
          with nt show ?thesis by blast
        qed
      qed
    qed
  qed
qed

text \<open>
  The loop splits the stream: the tokens it consumed, none of a terminator kind, go to the
  buffer in order, and the rest stays in the stream.
\<close>

lemma read_loop_split:
  "\<exists>consumed. tokens = consumed @ snd (read_loop depth doi_buffer tokens) \<and>
     fst (read_loop depth doi_buffer tokens) = doi_buffer @ map snd consumed \<and>
     (\<forall>t \<in> set consumed. fst t \<notin> set terminators)"
proof (induction tokens arbitrary: depth doi_buffer)
  case Nil
  show ?case by simp
next
  case (Cons tok tokens)
  obtain name m where tok: "tok = (name, m)" by (cases tok)
  from read_loop_turn[of depth doi_buffer name m tokens] show ?case
  proof
    assume "read_loop depth doi_buffer ((name, m) # tokens) = (doi_buffer, (name, m) # tokens)"
    then show ?thesis unfolding tok by (intro exI[of _ "[]"]) simp
  next
    assume "name \<notin> set terminators \<and>
      (\<exists>d. read_loop depth doi_buffer ((name, m) # tokens) = read_loop d (doi_buffer @ [m]) tokens)"
    then obtain d where nt: "name \<notin> set terminators"
      and r: "read_loop depth doi_buffer ((name, m) # tokens) = read_loop d (doi_buffer @ [m]) tokens"
      by blast
    from Cons.IH[of d "doi_buffer @ [m]"] obtain consumed where
      c: "tokens = consumed @ snd (read_loop d (doi_buffer @ [m]) tokens)"
        "fst (read_loop d (doi_buffer @ [m]) tokens) = (doi_buffer @ [m]) @ map snd consumed"
        "\<forall>t \<in> set consumed. fst t \<notin> set terminators" by blast
    show ?thesis unfolding tok r
      apply (rule exI[of _ "(name, m) # consumed"])
      using c nt by simp
  qed
qed

text \<open>A text that \<open>DOI_START_RE\<close> matches to its end ends in a slash.\<close>

lemma lit_match_drop: "lit_match ci w s = Some t \<Longrightarrow> t = drop (length w) s"
  by (induction ci w s rule: lit_match.induct) (auto split: if_splits)

lemma doi_start_text_slash:
  assumes "doi_start_text m"
  shows "\<exists>p. m = p @ ''/''"
proof -
  from assms have "[] \<in> set (rmatch False DOI_START_RE m)" by (simp add: doi_start_text_def)
  then obtain u v where
    u: "u \<in> set (rmatch False (Lit ''10.'') m)" and
    v: "v \<in> set (rmatch False (Rep 4 is_digit) u)" and
    e: "[] \<in> set (rmatch False (Lit ''/'') v)"
    by (auto simp: DOI_START_RE_def)
  from e have "lit_match False ''/'' v = Some []" by (auto split: option.splits)
  then have v1: "v = ''/''"
    by (cases v) (auto simp: chr_eq_def split: if_splits list.splits)
  from u have "lit_match False ''10.'' m = Some u" by (auto split: option.splits)
  from lit_match_drop[OF this] have u3: "u = drop 3 m" by (simp add: numeral_3_eq_3)
  from v obtain j where "v = drop j u" by auto
  with u3 v1 have "drop (j + 3) m = ''/''" by (simp add: add.commute)
  then have "m = take (j + 3) m @ ''/''" by (metis append_take_drop_id)
  then show ?thesis ..
qed

lemma punct_sub_doi_start:
  assumes "doi_start_text m"
  shows "\<exists>p. m = p @ ''/'' \<and> punctuation_at_end_sub (m @ q) = m @ punctuation_at_end_sub q"
proof -
  from doi_start_text_slash[OF assms] obtain p where p: "m = p @ ''/''" by blast
  have "punctuation_at_end_sub (p @ CHR ''/'' # q) = p @ CHR ''/'' # punctuation_at_end_sub q"
    by (rule punct_sub_keep) (simp_all add: is_end_punct_def LF_def)
  with p show ?thesis by auto
qed

lemma read_doi_doi_start:
  "read_doi ((''doi_start'', m) # tokens) =
     Inr (Identifier ''doi''
            (punctuation_at_end_sub (concat (fst (read_loop (\<lambda>_. 0) [m] tokens)))),
          snd (read_loop (\<lambda>_. 0) [m] tokens))"
  by (simp split: prod.splits)

section \<open>What a match consumes\<close>

lemma lit_match_consumed:
  "lit_match ci w s = Some t \<Longrightarrow> \<forall>c \<in> set w. \<forall>d. chr_eq ci c d \<longrightarrow> Q d \<Longrightarrow>
     \<exists>p. s = p @ t \<and> list_all Q p"
proof (induction ci w s rule: lit_match.induct)
  case (1 ci s)
  then show ?case by simp
next
  case (2 ci c cs)
  then show ?case by simp
next
  case (3 ci c cs d ds)
  from "3.prems"(1) have e: "chr_eq ci c d" and l: "lit_match ci cs ds = Some t"
    by (auto split: if_splits)
  from "3.IH"[OF e l] "3.prems"(2) obtain p where p: "ds = p @ t" "list_all Q p" by auto
  from e "3.prems"(2) have "Q d" by simp
  with p have "d # ds = (d # p) @ t \<and> list_all Q (d # p)" by simp
  then show ?case by blast
qed

lemma rmatch_consumed:
  "t \<in> set (rmatch ci r s) \<Longrightarrow> rx_sat Q ci r \<Longrightarrow> \<exists>p. s = p @ t \<and> list_all Q p"
proof (induction r arbitrary: s t)
  case (Lit w)
  then have "lit_match ci w s = Some t" by (auto split: option.splits)
  from lit_match_consumed[OF this] Lit.prems(2) show ?case by simp
next
  case (Cls P)
  then obtain d where "s = d # t" "P d" by (auto split: list.splits if_splits)
  with Cls.prems(2) have "s = [d] @ t \<and> list_all Q [d]" by simp
  then show ?case by blast
next
  case (Rep n P)
  then have "t \<in> (\<lambda>j. drop j s) ` set [n ..< Suc (length (takeWhile P s))]"
    by (simp only: rmatch.simps set_map set_rev)
  then obtain j where "j \<in> set [n ..< Suc (length (takeWhile P s))]" and j2: "t = drop j s"
    by blast
  then have j: "j \<le> length (takeWhile P s)" "t = drop j s" by auto
  from take_takeWhile_prefix[OF j(1)] Rep.prems(2) have "list_all Q (take j s)"
    by (auto simp: list_all_iff)
  with j(2) have "s = take j s @ t \<and> list_all Q (take j s)" by simp
  then show ?case by blast
next
  case (Seq a b)
  then obtain u where u: "u \<in> set (rmatch ci a s)" "t \<in> set (rmatch ci b u)" by auto
  from Seq.IH(1)[OF u(1)] Seq.prems(2) obtain p where p: "s = p @ u" "list_all Q p" by auto
  from Seq.IH(2)[OF u(2)] Seq.prems(2) obtain q where q: "u = q @ t" "list_all Q q" by auto
  from p q have "s = (p @ q) @ t \<and> list_all Q (p @ q)" by simp
  then show ?case by blast
next
  case (Alt a b)
  then show ?case by auto
next
  case (Opt a)
  from Opt.prems(1) have "t \<in> set (rmatch ci a s) \<or> t = s" by auto
  then show ?case
  proof
    assume "t \<in> set (rmatch ci a s)"
    with Opt show ?thesis by simp
  next
    assume "t = s"
    then have "s = [] @ t \<and> list_all Q []" by simp
    then show ?thesis by blast
  qed
qed

lemma rx_match_consumed:
  assumes "rx_match ci r s = Some n" "rx_sat Q ci r"
  shows "list_all Q (take n s)"
proof -
  from assms(1) obtain t ts where t: "rmatch ci r s = t # ts" "n = length s - length t"
    by (auto simp: rx_match_def split: list.splits)
  then have "t \<in> set (rmatch ci r s)" by simp
  from rmatch_consumed[OF this assms(2)] obtain p where p: "s = p @ t" "list_all Q p" by blast
  with t(2) have "take n s = p" by simp
  with p show ?thesis by simp
qed

lemma of_char_ascii_lower:
  "(of_char (ascii_lower c) :: nat) =
     (if 65 \<le> (of_char c :: nat) \<and> (of_char c :: nat) \<le> 90 then of_char c + 32 else of_char c)"
  by (simp add: ascii_lower_def)

lemma chr_eq_LF: "chr_eq ci c d \<Longrightarrow> c \<noteq> LF \<Longrightarrow> d \<noteq> LF"
proof (cases ci)
  case False
  then show "chr_eq ci c d \<Longrightarrow> c \<noteq> LF \<Longrightarrow> d \<noteq> LF" by (simp add: chr_eq_def)
next
  case True
  assume e: "chr_eq ci c d" and c: "c \<noteq> LF"
  show "d \<noteq> LF"
  proof
    assume d: "d = LF"
    have "(of_char (ascii_lower LF) :: nat) = 10" by (simp add: of_char_ascii_lower LF_def)
    with e True d have "(of_char (ascii_lower c) :: nat) = 10" by (simp add: chr_eq_def)
    then have "(of_char c :: nat) = 10" by (simp add: of_char_ascii_lower split: if_splits)
    moreover have "(of_char LF :: nat) = 10" by (simp add: LF_def)
    ultimately have "(of_char c :: nat) = of_char LF" by simp
    then have "c = LF" by (simp only: of_char_eq_iff)
    with c show False by simp
  qed
qed

section \<open>The tokens of the lexer\<close>

lemma rx_sat_Lit_LF: "LF \<notin> set w \<Longrightarrow> rx_sat (\<lambda>c. c \<noteq> LF) ci (Lit w)"
  using chr_eq_LF by auto

text \<open>Outside the terminator kinds no pattern of the lexicon consumes a line feed.\<close>

lemma lexicon_no_LF:
  assumes "(r, k) \<in> set LEXICON" "k \<notin> set terminators"
  shows "rx_sat (\<lambda>c. c \<noteq> LF) True r"
proof -
  have d: "rx_sat (\<lambda>c. c \<noteq> LF) True DOI_START_RE"
    unfolding DOI_START_RE_def
    by (simp only: rx_sat.simps, intro conjI allI impI ballI) (auto dest: chr_eq_LF simp: is_digit_def LF_def)
  have w: "rx_sat (\<lambda>c. c \<noteq> LF) True (Rep n is_word)" for n
    by (auto simp add: is_word_def LF_def Let_def)
  have p: "rx_sat (\<lambda>c. c \<noteq> LF) True (Cls is_punct)"
    by (auto simp add: is_punct_def LF_def)
  have e: "rx_sat (\<lambda>c. c \<noteq> LF) True (Cls is_dot)"
    by (simp add: is_dot_def)
  have lits:
    "rx_sat (\<lambda>c. c \<noteq> LF) True (Lit ''('')" "rx_sat (\<lambda>c. c \<noteq> LF) True (Lit '')'')"
    "rx_sat (\<lambda>c. c \<noteq> LF) True (Lit ''['')" "rx_sat (\<lambda>c. c \<noteq> LF) True (Lit '']'')"
    "rx_sat (\<lambda>c. c \<noteq> LF) True (Lit ''<'')" "rx_sat (\<lambda>c. c \<noteq> LF) True (Lit ''>'')"
    "rx_sat (\<lambda>c. c \<noteq> LF) True (Lit ''{'')" "rx_sat (\<lambda>c. c \<noteq> LF) True (Lit ''}'')"
    by (rule rx_sat_Lit_LF, simp add: LF_def)+
  have "list_all (\<lambda>(r, k). k \<in> set terminators \<or> rx_sat (\<lambda>c. c \<noteq> LF) True r) LEXICON"
    unfolding LEXICON_def list.pred_inject
    by (intro conjI) (simp_all add: d w p e lits terminators_def del: rx_sat.simps)
  with assms show ?thesis by (auto simp: list_all_iff)
qed


lemma scan_token:
  "(k, x) \<in> set (scan True LEXICON s) \<Longrightarrow>
     \<exists>s' n. first_match True LEXICON s' = Some (k, n) \<and> x = take n s'"
proof (induction s rule: length_induct)
  case (1 s)
  show ?case
  proof (cases s)
    case Nil
    with "1.prems" have False by (simp only: scan_lexicon_Nil list.set empty_iff)
    then show ?thesis ..
  next
    case (Cons c cs)
    from scan_lexicon_Cons[of c cs] obtain k' n where
      f: "first_match True LEXICON (c # cs) = Some (k', n)" and
      n: "1 \<le> n" "n \<le> length (c # cs)" and
      sc: "scan True LEXICON (c # cs) = (k', take n (c # cs)) # scan True LEXICON (drop n (c # cs))"
      by blast
    from "1.prems" Cons sc
    have "(k, x) = (k', take n (c # cs)) \<or> (k, x) \<in> set (scan True LEXICON (drop n (c # cs)))"
      by (simp del: drop_Suc_Cons take_Suc_Cons)
    then show ?thesis
    proof
      assume "(k, x) = (k', take n (c # cs))"
      with f show ?thesis by blast
    next
      assume a: "(k, x) \<in> set (scan True LEXICON (drop n (c # cs)))"
      from n have "length (drop n (c # cs)) < length s" using Cons by simp
      with "1.IH" a show ?thesis by blast
    qed
  qed
qed

text \<open>A token of the lexer that is not of a terminator kind holds no line feed.\<close>

lemma lexer_token_no_LF:
  assumes "(k, x) \<in> set (scan True LEXICON s)" "k \<notin> set terminators"
  shows "LF \<notin> set x"
proof -
  from scan_token[OF assms(1)] obtain s' n where
    f: "first_match True LEXICON s' = Some (k, n)" and x: "x = take n s'" by blast
  from first_match_Some[OF f] obtain r where
    r: "(r, k) \<in> set LEXICON" "rx_match True r s' = Some n" by blast
  from rx_match_consumed[OF r(2) lexicon_no_LF[OF r(1) assms(2)]] x
  show ?thesis by (auto simp: list_all_iff)
qed

section \<open>Properties of the span search\<close>

text \<open>
  Whatever the list of matches, every capture of the loop begins after \<open>last_end\<close> and ends
  where it begins or later, and each capture ends before the next one begins.
\<close>

lemma extract_loop_spans:
  "(\<forall>c \<in> set (fst (extract_loop s last_end ms)).
      last_end < span_begin (capture_span c) \<and>
      span_begin (capture_span c) \<le> span_end (capture_span c)) \<and>
   sorted_wrt (\<lambda>a b. span_end (capture_span a) < span_begin (capture_span b))
     (fst (extract_loop s last_end ms))"
proof (induction s last_end ms rule: extract_loop.induct)
  case (1 s last_end)
  show ?case by simp
next
  case (2 s last_end begin_pos match_end ms)
  show ?case
  proof (cases "begin_pos > last_end")
    case False
    with "2.IH"(2) show ?thesis by auto
  next
    case True
    show ?thesis
    proof (cases "read_doi (tokenize_search s begin_pos)")
      case (Inl e)
      with True show ?thesis by simp
    next
      case (Inr res)
      obtain ident rest where res: "res = (ident, rest)" by (cases res)
      let ?end_pos = "begin_pos + length (id_text ident)"
      from "2.IH"(1)[OF True Inr[unfolded res] refl refl]
      have ih: "(\<forall>c \<in> set (fst (extract_loop s ?end_pos ms)).
          ?end_pos < span_begin (capture_span c) \<and>
          span_begin (capture_span c) \<le> span_end (capture_span c)) \<and>
        sorted_wrt (\<lambda>a b. span_end (capture_span a) < span_begin (capture_span b))
          (fst (extract_loop s ?end_pos ms))"
        by simp
      have eq: "fst (extract_loop s last_end ((begin_pos, match_end) # ms)) =
          CaptureResult ident (Span begin_pos ?end_pos) # fst (extract_loop s ?end_pos ms)"
        using True Inr res by (simp add: Let_def split: prod.splits)
      from ih True show ?thesis unfolding eq by auto
    qed
  qed
qed

text \<open>A literal below \<open>A\<close> in the code table has no other case, so \<open>re.I\<close> changes nothing for it.\<close>

lemma chr_eq_caseless:
  assumes "(of_char c :: nat) < 65"
  shows "chr_eq True c d = (c = d)"
proof
  assume "chr_eq True c d"
  then have "(of_char (ascii_lower c) :: nat) = of_char (ascii_lower d)"
    by (simp add: chr_eq_def)
  with assms have "(of_char c :: nat) = of_char d"
    by (simp add: of_char_ascii_lower split: if_splits)
  then show "c = d" by (simp only: of_char_eq_iff)
next
  assume "c = d"
  then show "chr_eq True c d" by (simp add: chr_eq_def)
qed

lemma lit_match_caseless:
  "\<forall>c \<in> set w. (of_char c :: nat) < 65 \<Longrightarrow> lit_match True w s = lit_match False w s"
proof (induction w arbitrary: s)
  case Nil
  show ?case by simp
next
  case (Cons c w)
  show ?case
  proof (cases s)
    case Nil
    then show ?thesis by simp
  next
    case (Cons d ds)
    have "chr_eq True c d = chr_eq False c d"
      using Cons.prems chr_eq_caseless[of c d] by (simp add: chr_eq_def)
    with Cons.IH[of ds] Cons.prems Cons show ?thesis by simp
  qed
qed

lemma rmatch_doi_start_caseless: "rmatch True DOI_START_RE s = rmatch False DOI_START_RE s"
proof -
  have a: "lit_match True ''10.'' u = lit_match False ''10.'' u" for u
    by (rule lit_match_caseless) simp
  have b: "lit_match True ''/'' u = lit_match False ''/'' u" for u
    by (rule lit_match_caseless) simp
  show ?thesis unfolding DOI_START_RE_def rmatch.simps a b ..
qed






section \<open>Properties of the classifier and its cache\<close>

lemma extractOne_None_iff:
  "extractOne score query choices score_cutoff = None \<longleftrightarrow>
     \<not> (\<exists>c \<in> set choices. score_cutoff \<le> score query c)"
proof -
  have "filter (\<lambda>p. snd p \<ge> score_cutoff) (map (\<lambda>c. (c, score query c)) choices) = [] \<longleftrightarrow>
      \<not> (\<exists>c \<in> set choices. score_cutoff \<le> score query c)"
    by (auto simp: filter_empty_conv)
  then show ?thesis by (auto simp: extractOne_def split: list.splits)
qed

lemma is_bibliography_exists:
  "languages_bibliography cfg language = Some synonyms \<Longrightarrow>
     is_bibliography cfg section_name language score_cutoff =
       Inr (\<exists>c \<in> set synonyms. score_cutoff \<le> fuzzy_score cfg section_name c)"
  by (simp add: is_bibliography_def extractOne_None_iff)

text \<open>A cache is sound for \<open>f\<close> when every value it holds is the value \<open>f\<close> returns for its key.\<close>

lemma lru_call_sound:
  assumes "\<forall>(k, v) \<in> set cache. f k = Inr v"
  shows "fst (lru_call maxsize f cache key) = f key \<and>
         (\<forall>(k, v) \<in> set (snd (lru_call maxsize f cache key)). f k = Inr v)"
proof (cases "map_of cache key")
  case (Some v)
  then have "(key, v) \<in> set cache" by (rule map_of_SomeD)
  with assms have "f key = Inr v" by auto
  with Some assms show ?thesis by (auto simp: lru_call_def)
next
  case None
  show ?thesis
  proof (cases "f key")
    case (Inl e)
    with None assms show ?thesis by (simp add: lru_call_def)
  next
    case (Inr v)
    have "set (take maxsize ((key, v) # cache)) \<subseteq> set ((key, v) # cache)" by (rule set_take_subset)
    with Inr assms have "\<forall>(k, v') \<in> set (take maxsize ((key, v) # cache)). f k = Inr v'" by auto
    with None Inr show ?thesis by (simp add: lru_call_def)
  qed
qed

lemma lru_call_size:
  assumes "length cache \<le> maxsize"
  shows "length (snd (lru_call maxsize f cache key)) \<le> maxsize"
proof (cases "map_of cache key")
  case (Some v)
  then have "(key, v) \<in> set cache" by (rule map_of_SomeD)
  then have "length (filter (\<lambda>p. fst p \<noteq> key) cache) < length cache"
    by (intro length_filter_less[of "(key, v)"]) simp_all
  with Some assms show ?thesis by (simp add: lru_call_def)
next
  case None
  with assms show ?thesis by (cases "f key") (simp_all add: lru_call_def)
qed

lemma cached_calls_sound:
  "\<forall>(k, v) \<in> set cache. is_bibliography_key cfg k = Inr v \<Longrightarrow> length cache \<le> 500 \<Longrightarrow>
     fst (cached_calls cfg cache keys) = map (is_bibliography_key cfg) keys \<and>
     length (snd (cached_calls cfg cache keys)) \<le> 500"
proof (induction keys arbitrary: cache)
  case Nil
  then show ?case by simp
next
  case (Cons key keys)
  obtain r cache' where c: "is_bibliography_cached cfg cache key = (r, cache')"
    by (cases "is_bibliography_cached cfg cache key")
  from lru_call_sound[OF Cons.prems(1), of 500 key] c
  have r: "r = is_bibliography_key cfg key"
    and s: "\<forall>(k, v) \<in> set cache'. is_bibliography_key cfg k = Inr v"
    by (simp_all add: is_bibliography_cached_def)
  from lru_call_size[OF Cons.prems(2), of "is_bibliography_key cfg" key] c
  have l: "length cache' \<le> 500" by (simp add: is_bibliography_cached_def)
  from Cons.IH[OF s l] c r show ?case
    by (cases "cached_calls cfg cache' keys") simp
qed

text \<open>From the empty cache on, every call through the cache returns what the body returns.\<close>

lemma cached_calls_transparent:
  "fst (cached_calls cfg [] keys) = map (is_bibliography_key cfg) keys"
  using cached_calls_sound[of "[]" cfg keys] by simp

section \<open>Properties of the pipeline\<close>

lemma counter_get_inc: "counter_get (counter_inc c k) j = (if j = k then counter_get c k + 1 else counter_get c j)"
  by (simp add: counter_get_def counter_inc_def)

lemma stats_trace_append:
  "set (stats_trace st (a @ b)) =
     set (stats_trace st a) \<union> set (stats_trace (foldl apply_update st a) b)"
proof (induction a arbitrary: st)
  case Nil
  show ?case by (cases b) auto
next
  case (Cons u a)
  then show ?case by auto
qed

lemma foldl_in_stats_trace: "foldl apply_update st ups \<in> set (stats_trace st ups)"
  by (induction ups arbitrary: st) auto

text \<open>
  Two runs of updates that each keep the counters consistent, at every step and from
  every consistent start, do so one after the other.
\<close>

lemma consistent_append:
  assumes a: "\<And>st st'. counters_consistent st \<Longrightarrow> st' \<in> set (stats_trace st a) \<Longrightarrow>
                counters_consistent st'"
    and b: "\<And>st st'. counters_consistent st \<Longrightarrow> st' \<in> set (stats_trace st b) \<Longrightarrow>
                counters_consistent st'"
    and st: "counters_consistent st" "st' \<in> set (stats_trace st (a @ b))"
  shows "counters_consistent st'"
proof -
  from st(2) have "st' \<in> set (stats_trace st a) \<or>
      st' \<in> set (stats_trace (foldl apply_update st a) b)"
    by (simp add: stats_trace_append)
  then show ?thesis
  proof
    assume "st' \<in> set (stats_trace st a)"
    with a st(1) show ?thesis .
  next
    assume s: "st' \<in> set (stats_trace (foldl apply_update st a) b)"
    from a[OF st(1) foldl_in_stats_trace] have "counters_consistent (foldl apply_update st a)" .
    from b[OF this s] show ?thesis .
  qed
qed

lemma consistent_global:
  "counters_consistent st \<Longrightarrow> counters_consistent (apply_update st (IncGlobal k))"
  unfolding counters_consistent_def
proof
  fix j
  assume c: "\<forall>k. counter_get (section_names_last_revision st) k \<le> counter_get (section_names_global st) k"
  then have "counter_get (section_names_last_revision st) j \<le> counter_get (section_names_global st) j"
    by simp
  then show "counter_get (section_names_last_revision (apply_update st (IncGlobal k))) j
      \<le> counter_get (section_names_global (apply_update st (IncGlobal k))) j"
    by (auto simp add: counter_get_inc)
qed

lemma consistent_global_last:
  "counters_consistent st \<Longrightarrow>
     counters_consistent (apply_update (apply_update st (IncGlobal k)) (IncLastRevision k))"
  unfolding counters_consistent_def
proof
  fix j
  assume c: "\<forall>k. counter_get (section_names_last_revision st) k \<le> counter_get (section_names_global st) k"
  then have "counter_get (section_names_last_revision st) j \<le> counter_get (section_names_global st) j"
    by simp
  then show "counter_get (section_names_last_revision
        (apply_update (apply_update st (IncGlobal k)) (IncLastRevision k))) j
      \<le> counter_get (section_names_global
        (apply_update (apply_update st (IncGlobal k)) (IncLastRevision k))) j"
    by (auto simp add: counter_get_inc)
qed

lemma consistent_other:
  "counters_consistent st \<Longrightarrow> counters_consistent (apply_update st IncRevisionsAnalyzed)"
  "counters_consistent st \<Longrightarrow> counters_consistent (apply_update st IncPagesAnalyzed)"
  by (simp_all add: counters_consistent_def)

lemma consistent_section_updates:
  "counters_consistent st \<Longrightarrow> st' \<in> set (stats_trace st (section_updates is_last ss)) \<Longrightarrow>
     counters_consistent st'"
proof (induction ss arbitrary: st)
  case Nil
  then show ?case by simp
next
  case (Cons s ss)
  show ?case
  proof (cases is_last)
    case True
    with Cons.prems(2) have "st' = st \<or> st' = apply_update st (IncGlobal (sec_name s)) \<or>
        st' \<in> set (stats_trace (apply_update (apply_update st (IncGlobal (sec_name s)))
                 (IncLastRevision (sec_name s))) (section_updates is_last ss))"
      by auto
    with Cons.prems(1) Cons.IH[OF consistent_global_last[OF Cons.prems(1)]] consistent_global
    show ?thesis by blast
  next
    case False
    with Cons.prems(2) have "st' = st \<or>
        st' \<in> set (stats_trace (apply_update st (IncGlobal (sec_name s))) (section_updates is_last ss))"
      by auto
    with Cons.prems(1) Cons.IH[OF consistent_global[OF Cons.prems(1)]]
    show ?thesis by blast
  qed
qed

lemma consistent_extract_revisions:
  "counters_consistent st \<Longrightarrow>
   st' \<in> set (stats_trace st (fst (snd (extract_revisions cfg language only_last revs)))) \<Longrightarrow>
     counters_consistent st'"
proof (induction revs arbitrary: st st')
  case Nil
  then show ?case by simp
next
  case (Cons r revs)
  let ?rest = "fst (snd (extract_revisions cfg language only_last revs))"
  show ?case
  proof (cases "only_last \<and> revs \<noteq> []")
    case True
    with Cons.prems(2) have "st' \<in> set (stats_trace st ?rest)" by (simp add: Let_def)
    from Cons.IH[OF Cons.prems(1) this] show ?thesis .
  next
    case False
    show ?thesis
    proof (cases "bibliography_sections cfg language r")
      case (Inl e)
      with False Cons.prems show ?thesis by (auto simp: Let_def)
    next
      case (Inr secs)
      have eq: "fst (snd (extract_revisions cfg language only_last (r # revs))) =
          section_updates (revs = []) secs @ ([IncRevisionsAnalyzed] @ ?rest)"
        using False Inr
        by (cases "extract_revisions cfg language only_last revs") (auto simp: Let_def)
      have tail: "counters_consistent s'"
        if "counters_consistent s" "s' \<in> set (stats_trace s ([IncRevisionsAnalyzed] @ ?rest))"
        for s s'
      proof (rule consistent_append[of "[IncRevisionsAnalyzed]" ?rest s s'])
        fix t t' assume "counters_consistent t" "t' \<in> set (stats_trace t [IncRevisionsAnalyzed])"
        then show "counters_consistent t'" using consistent_other(1) by auto
      next
        fix t t' assume "counters_consistent t" "t' \<in> set (stats_trace t ?rest)"
        then show "counters_consistent t'" by (rule Cons.IH)
      qed (rule that)+
      show ?thesis
      proof (rule consistent_append[of "section_updates (revs = []) secs"
            "[IncRevisionsAnalyzed] @ ?rest" st st'])
        fix t t' assume "counters_consistent t"
          "t' \<in> set (stats_trace t (section_updates (revs = []) secs))"
        then show "counters_consistent t'" by (rule consistent_section_updates)
      next
        fix t t' assume "counters_consistent t"
          "t' \<in> set (stats_trace t ([IncRevisionsAnalyzed] @ ?rest))"
        then show "counters_consistent t'" by (rule tail)
      next
        show "counters_consistent st" by (rule Cons.prems(1))
      next
        from Cons.prems(2) show "st' \<in> set (stats_trace st
            (section_updates (revs = []) secs @ ([IncRevisionsAnalyzed] @ ?rest)))"
          unfolding eq .
      qed
    qed
  qed
qed

lemma consistent_extract_pages:
  "counters_consistent st \<Longrightarrow>
   st' \<in> set (stats_trace st (fst (snd (extract_pages cfg language only_last dump)))) \<Longrightarrow>
     counters_consistent st'"
proof (induction dump arbitrary: st st')
  case Nil
  then show ?case by simp
next
  case (Cons pg dump)
  let ?rest = "fst (snd (extract_pages cfg language only_last dump))"
  show ?case
  proof (cases "mwp_namespace pg \<noteq> 0")
    case True
    with Cons.prems(2) have "st' \<in> set (stats_trace st ?rest)" by simp
    from Cons.IH[OF Cons.prems(1) this] show ?thesis .
  next
    case False
    obtain revs ups e where r:
      "extract_revisions cfg language only_last (mwp_revisions pg) = (revs, ups, e)"
      by (cases "extract_revisions cfg language only_last (mwp_revisions pg)") auto
    have ups: "counters_consistent s'"
      if "counters_consistent s" "s' \<in> set (stats_trace s ups)" for s s'
      using consistent_extract_revisions[of s s' cfg language only_last "mwp_revisions pg"] that r
      by simp
    show ?thesis
    proof (cases e)
      case (Some err)
      with False r Cons.prems(2) have "st' \<in> set (stats_trace st ups)" by simp
      from ups[OF Cons.prems(1) this] show ?thesis .
    next
      case None
      have eq: "fst (snd (extract_pages cfg language only_last (pg # dump))) =
          ups @ ([IncPagesAnalyzed] @ ?rest)"
        using False r None
        by (cases "extract_pages cfg language only_last dump") auto
      have tail: "counters_consistent s'"
        if "counters_consistent s" "s' \<in> set (stats_trace s ([IncPagesAnalyzed] @ ?rest))"
        for s s'
      proof (rule consistent_append[of "[IncPagesAnalyzed]" ?rest s s'])
        fix t t' assume "counters_consistent t" "t' \<in> set (stats_trace t [IncPagesAnalyzed])"
        then show "counters_consistent t'" using consistent_other(2) by auto
      next
        fix t t' assume "counters_consistent t" "t' \<in> set (stats_trace t ?rest)"
        then show "counters_consistent t'" by (rule Cons.IH)
      qed (rule that)+
      show ?thesis
      proof (rule consistent_append[of ups "[IncPagesAnalyzed] @ ?rest" st st'])
        fix t t' assume "counters_consistent t" "t' \<in> set (stats_trace t ups)"
        then show "counters_consistent t'" by (rule ups)
      next
        fix t t' assume "counters_consistent t"
          "t' \<in> set (stats_trace t ([IncPagesAnalyzed] @ ?rest))"
        then show "counters_consistent t'" by (rule tail)
      next
        show "counters_consistent st" by (rule Cons.prems(1))
      next
        from Cons.prems(2) show "st' \<in> set (stats_trace st (ups @ ([IncPagesAnalyzed] @ ?rest)))"
          unfolding eq .
      qed
    qed
  qed
qed

lemma initial_stats_consistent: "counters_consistent initial_stats"
  by (simp add: counters_consistent_def initial_stats_def counter_get_def)

subsection \<open>The pipeline on a page of three revisions\<close>

lemma example_bibliography_sections:
  "bibliography_sections example_config ''en'' (example_revision n) =
     Inr [\<lparr> sec_name = ''References'', sec_level = 2, sec_full_body = ''* a source'' \<rparr>]"
  by (simp add: bibliography_sections_def example_config_def example_revision_def
      is_bibliography_def extractOne_def FUZZY_MATCH_CUTOFF_def)

lemma extract_revisions_three:
  assumes "bibliography_sections cfg language r1 = Inr [s1]"
    "bibliography_sections cfg language r2 = Inr [s2]"
    "bibliography_sections cfg language r3 = Inr [s3]"
  shows "fst (snd (extract_revisions cfg language False [r1, r2, r3])) =
      [IncGlobal (sec_name s1), IncRevisionsAnalyzed,
       IncGlobal (sec_name s2), IncRevisionsAnalyzed,
       IncGlobal (sec_name s3), IncLastRevision (sec_name s3), IncRevisionsAnalyzed]"
    and "fst (snd (extract_revisions cfg language True [r1, r2, r3])) =
      [IncGlobal (sec_name s3), IncLastRevision (sec_name s3), IncRevisionsAnalyzed]"
    and "snd (snd (extract_revisions cfg language b [r1, r2, r3])) = None"
  using assms by (simp_all add: Let_def)

subsection \<open>The identifier-start tokens of the lexer\<close>

lemma rx_sat_True: "rx_sat (\<lambda>_. True) ci r"
  by (induction r) simp_all

lemma rmatch_suffix: "t \<in> set (rmatch ci r s) \<Longrightarrow> \<exists>p. s = p @ t"
  using rmatch_consumed[of t ci r s "\<lambda>_. True"] rx_sat_True by blast

text \<open>
  Whether a pattern can consume a prefix of the text does not depend on what follows the
  prefix.
\<close>

lemma lit_match_extend:
  "lit_match ci w (p @ t) = Some t \<Longrightarrow> length p = length w \<Longrightarrow> lit_match ci w (p @ q) = Some q"
proof (induction w arbitrary: p)
  case Nil
  then show ?case by simp
next
  case (Cons c w)
  then obtain d p' where p: "p = d # p'" by (cases p) auto
  with Cons.prems have "chr_eq ci c d" "lit_match ci w (p' @ t) = Some t" "length p' = length w"
    by (auto split: if_splits)
  with Cons.IH[of p'] p show ?case by simp
qed

lemma rmatch_extend:
  "t \<in> set (rmatch ci r (p @ t)) \<Longrightarrow> q \<in> set (rmatch ci r (p @ q))"
proof (induction r arbitrary: p t q)
  case (Lit w)
  then have l: "lit_match ci w (p @ t) = Some t" by (cases "lit_match ci w (p @ t)") simp_all
  from lit_match_length[OF l] have "length p = length w" by simp
  from lit_match_extend[OF l this] show ?case by simp
next
  case (Cls P)
  show ?case
  proof (cases "p @ t")
    case Nil
    with Cls show ?thesis by simp
  next
    case (Cons d t')
    with Cls have "P d" "t = t'" by (simp_all split: if_splits)
    with Cons have "p @ t = [d] @ t" by simp
    then have "p = [d]" by (rule append_same_eq[THEN iffD1])
    with \<open>P d\<close> show ?thesis by simp
  qed
next
  case (Rep n P)
  then have "t \<in> (\<lambda>j. drop j (p @ t)) ` set [n ..< Suc (length (takeWhile P (p @ t)))]"
    by (simp only: rmatch.simps set_map set_rev)
  then obtain j where j0: "j \<in> set [n ..< Suc (length (takeWhile P (p @ t)))]"
    and j3: "t = drop j (p @ t)" by blast
  from j0 have j: "n \<le> j" "j \<le> length (takeWhile P (p @ t))"
    by (simp_all only: set_upt atLeastLessThan_iff less_Suc_eq_le)
  have "length (drop j (p @ t)) = length (p @ t) - j" by (rule length_drop)
  with j3 have "length t = length (p @ t) - j" by simp
  moreover from j(2) have "j \<le> length (p @ t)"
    using length_takeWhile_le[of P "p @ t"] by simp
  ultimately have jp: "j = length p" by simp
  from take_takeWhile_prefix[OF j(2)] jp have "list_all P p" by simp
  then have "takeWhile P (p @ q) = p @ takeWhile P q" by (simp add: list_all_iff)
  then have "length p \<le> length (takeWhile P (p @ q))" by simp
  with j(1) jp have "length p \<in> set [n ..< Suc (length (takeWhile P (p @ q)))]"
    by (simp only: set_upt atLeastLessThan_iff less_Suc_eq_le)
  then have "drop (length p) (p @ q) \<in>
      (\<lambda>j. drop j (p @ q)) ` set [n ..< Suc (length (takeWhile P (p @ q)))]"
    by (rule imageI)
  then have "drop (length p) (p @ q) \<in> set (rmatch ci (Rep n P) (p @ q))"
    by (simp only: rmatch.simps set_map set_rev)
  then show ?case by simp
next
  case (Seq a b)
  from Seq.prems obtain u where u: "u \<in> set (rmatch ci a (p @ t))" "t \<in> set (rmatch ci b u)"
    by auto
  from rmatch_suffix[OF u(2)] obtain p2 where p2: "u = p2 @ t" by blast
  from rmatch_suffix[OF u(1)] obtain p1 where p1: "p @ t = p1 @ u" by blast
  with p2 have pp: "p = p1 @ p2" by simp
  from u(1) p1 have "u \<in> set (rmatch ci a (p1 @ u))" by simp
  from Seq.IH(1)[OF this] have a: "p2 @ q \<in> set (rmatch ci a (p1 @ (p2 @ q)))" .
  from u(2) p2 have "t \<in> set (rmatch ci b (p2 @ t))" by simp
  from Seq.IH(2)[OF this] have b: "q \<in> set (rmatch ci b (p2 @ q))" .
  from a b pp show ?case by auto
next
  case (Alt a b)
  from Alt.prems have "t \<in> set (rmatch ci a (p @ t)) \<or> t \<in> set (rmatch ci b (p @ t))" by simp
  then show ?case using Alt.IH by auto
next
  case (Opt a)
  from Opt.prems have "t \<in> set (rmatch ci a (p @ t)) \<or> p = []" by auto
  then show ?case using Opt.IH by auto
qed

text \<open>The text of a \<open>doi_start\<close> token of the lexer is matched in full by \<open>DOI_START_RE\<close>.\<close>

lemma lexer_doi_start_text:
  assumes "(''doi_start'', m) \<in> set (scan True LEXICON s)"
  shows "doi_start_text m"
proof -
  from scan_token[OF assms] obtain s' n where
    f: "first_match True LEXICON s' = Some (''doi_start'', n)" and m: "m = take n s'" by blast
  from first_match_Some[OF f] obtain r where
    r: "(r, ''doi_start'') \<in> set LEXICON" "rx_match True r s' = Some n" by blast
  have "list_all (\<lambda>(r, k). k = ''doi_start'' \<longrightarrow> r = DOI_START_RE) LEXICON"
    unfolding LEXICON_def list.pred_inject by simp
  with r(1) have "r = DOI_START_RE" by (auto simp: list_all_iff)
  with r(2) obtain t ts where
    t: "rmatch True DOI_START_RE s' = t # ts" "n = length s' - length t"
    by (auto simp: rx_match_def split: list.splits)
  then have tin: "t \<in> set (rmatch False DOI_START_RE s')"
    by (simp add: rmatch_doi_start_caseless[symmetric])
  from rmatch_suffix[OF tin] obtain p where p: "s' = p @ t" by blast
  with m t(2) have "m = p" by simp
  from tin p have "t \<in> set (rmatch False DOI_START_RE (p @ t))" by simp
  from rmatch_extend[OF this, of "[]"] \<open>m = p\<close> show ?thesis
    by (simp add: doi_start_text_def)
qed

section \<open>The claims\<close>

text \<open>
  C1 (losslessness). For every text \<open>t\<close>, the texts of the tokens that \<open>tokenize_finditer\<close>
  produces over \<open>t\<close> with the fixed \<open>LEXICON\<close>, concatenated in order, are \<open>t\<close> itself: the
  tokens cover the text with no gap and no overlap.
\<close>

theorem tokenize_finditer_lossless:
  "concat (map snd (tokenize_finditer t LEXICON)) = t"
  by (simp add: tokenize_finditer_def scan_lossless)

text \<open>
  C3 (depth-tracked close markers). In the loop of \<open>read_doi\<close> a \<open>close_bracket\<close> or \<open>close_curly\<close>
  token is consumed and appended, with its counter decremented, when the counter is
  positive; when the counter is 0 the loop stops and leaves the token in the stream. So the
  tokens of \<open>10.1000/ab[c]d\<close> give the id \<open>10.1000/ab[c]d\<close>, and the tokens of \<open>10.1000/abc]\<close>
  give the id \<open>10.1000/abc\<close> with the \<open>]\<close> left unconsumed.
\<close>

theorem read_doi_close_markers:
  "read_loop depth doi_buffer ((''close_bracket'', m) # tokens) =
     (if depth ''bracket'' > 0
      then read_loop (depth(''bracket'' := depth ''bracket'' - 1)) (doi_buffer @ [m]) tokens
      else (doi_buffer, (''close_bracket'', m) # tokens)) \<and>
   read_loop depth doi_buffer ((''close_curly'', m) # tokens) =
     (if depth ''curly'' > 0
      then read_loop (depth(''curly'' := depth ''curly'' - 1)) (doi_buffer @ [m]) tokens
      else (doi_buffer, (''close_curly'', m) # tokens)) \<and>
   read_doi (tokenize_finditer ''10.1000/ab[c]d'' LEXICON) =
     Inr (Identifier ''doi'' ''10.1000/ab[c]d'', []) \<and>
   read_doi (tokenize_finditer ''10.1000/abc]'' LEXICON) =
     Inr (Identifier ''doi'' ''10.1000/abc'', [(''close_bracket'', '']'')])"
proof (intro conjI)
  show "read_loop depth doi_buffer ((''close_bracket'', m) # tokens) =
     (if depth ''bracket'' > 0
      then read_loop (depth(''bracket'' := depth ''bracket'' - 1)) (doi_buffer @ [m]) tokens
      else (doi_buffer, (''close_bracket'', m) # tokens))"
    by (simp add: terminators_def)
  show "read_loop depth doi_buffer ((''close_curly'', m) # tokens) =
     (if depth ''curly'' > 0
      then read_loop (depth(''curly'' := depth ''curly'' - 1)) (doi_buffer @ [m]) tokens
      else (doi_buffer, (''close_curly'', m) # tokens))"
    by (simp add: terminators_def)
  show "read_doi (tokenize_finditer ''10.1000/ab[c]d'' LEXICON) =
     Inr (Identifier ''doi'' ''10.1000/ab[c]d'', [])"
    by code_simp
  show "read_doi (tokenize_finditer ''10.1000/abc]'' LEXICON) =
     Inr (Identifier ''doi'' ''10.1000/abc'', [(''close_bracket'', '']'')])"
    by code_simp
qed

text \<open>
  C8 (the id is never empty). When the first token of the stream is an identifier-start
  token, a \<open>doi_start\<close> token whose text \<open>DOI_START_RE\<close> matches in full (as it does for
  every \<open>doi_start\<close> token of the lexer, by \<open>lexer_doi_start_text\<close>), \<open>read_doi\<close> returns an
  identifier, and its id is not empty: it begins with the whole text of that token, which
  ends in a slash that the trailing-punctuation strip cannot remove.
\<close>

theorem read_doi_id_nonempty:
  assumes "doi_start_text m"
  shows "\<exists>i rest. read_doi ((''doi_start'', m) # tokens) = Inr (i, rest) \<and>
           id_text i \<noteq> [] \<and> take (length m) (id_text i) = m"
proof -
  from read_loop_split[of tokens "\<lambda>_. 0" "[m]"] obtain consumed where
    "tokens = consumed @ snd (read_loop (\<lambda>_. 0) [m] tokens)" and
    b: "fst (read_loop (\<lambda>_. 0) [m] tokens) = [m] @ map snd consumed"
    by blast
  from punct_sub_doi_start[OF assms, of "concat (map snd consumed)"] obtain p where
    p: "m = p @ ''/''"
      "punctuation_at_end_sub (m @ concat (map snd consumed)) =
         m @ punctuation_at_end_sub (concat (map snd consumed))" by blast
  let ?i = "Identifier ''doi'' (punctuation_at_end_sub (concat (fst (read_loop (\<lambda>_. 0) [m] tokens))))"
  have "id_text ?i = m @ punctuation_at_end_sub (concat (map snd consumed))"
    using b p(2) by simp
  moreover have "m \<noteq> []" using p(1) by simp
  ultimately have "id_text ?i \<noteq> [] \<and> take (length m) (id_text ?i) = m" by simp
  with read_doi_doi_start[of m tokens] show ?thesis by blast
qed

theorem read_doi_id_nonempty_witness:
  "doi_start_text ''10.1000/'' \<and>
   (\<exists>i rest. read_doi ((''doi_start'', ''10.1000/'') # [(''punct'', ''.''), (''punct'', ''!'')]) = Inr (i, rest) \<and>
      id_text i \<noteq> [] \<and> take (length ''10.1000/'') (id_text i) = ''10.1000/'')"
proof -
  have h: "doi_start_text ''10.1000/''" by code_simp
  from read_doi_id_nonempty[OF h, of "[(''punct'', ''.''), (''punct'', ''!'')]"] h
  show ?thesis by blast
qed

text \<open>
  C9 (the shortest identifier). When the identifier-start token is followed at once by a
  terminator token, by a closing bracket or brace with nothing open, or by the end of the
  stream, \<open>read_doi\<close> raises nothing: it returns the identifier whose id is the text of the
  identifier-start token, and the stream still holds the token that stopped it.
\<close>

theorem read_doi_shortest:
  assumes "doi_start_text m"
    and "tokens = [] \<or> fst (hd tokens) \<in> set terminators \<or>
         fst (hd tokens) = ''close_bracket'' \<or> fst (hd tokens) = ''close_curly''"
  shows "read_doi ((''doi_start'', m) # tokens) = Inr (Identifier ''doi'' m, tokens)"
proof -
  have loop: "read_loop (\<lambda>_. 0) [m] tokens = ([m], tokens)"
  proof (cases tokens)
    case Nil
    then show ?thesis by simp
  next
    case (Cons tok ts)
    obtain name x where tok: "tok = (name, x)" by (cases tok)
    from assms(2) Cons tok consider (t) "name \<in> set terminators"
      | (b) "name = ''close_bracket''" | (c) "name = ''close_curly''" by auto
    then show ?thesis
    proof cases
      case t
      then show ?thesis unfolding Cons tok by simp
    next
      case b
      then show ?thesis unfolding Cons tok by (simp add: terminators_def)
    next
      case c
      then show ?thesis unfolding Cons tok by (simp add: terminators_def)
    qed
  qed
  from punct_sub_doi_start[OF assms(1), of "[]"]
  have "punctuation_at_end_sub m = m" by auto
  with loop read_doi_doi_start[of m tokens] show ?thesis by simp
qed

theorem read_doi_shortest_witness:
  "doi_start_text ''10.1000/'' \<and>
   read_doi ((''doi_start'', ''10.1000/'') # [(''whitespace'', '' ''), (''word'', ''x'')]) =
     Inr (Identifier ''doi'' ''10.1000/'', [(''whitespace'', '' ''), (''word'', ''x'')])"
proof -
  have h: "doi_start_text ''10.1000/''" by code_simp
  have t: "[(''whitespace'', '' ''), (''word'', ''x'')] = [] \<or>
      fst (hd [(''whitespace'', '' ''), (''word'', ''x'')]) \<in> set terminators \<or>
      fst (hd [(''whitespace'', '' ''), (''word'', ''x'')]) = ''close_bracket'' \<or>
      fst (hd [(''whitespace'', '' ''), (''word'', ''x'')]) = ''close_curly''"
    by (simp add: terminators_def)
  from read_doi_shortest[OF h t] h show ?thesis by simp
qed

text \<open>
  C6 (trailing punctuation). Let the stream be the tokens of the lexer over any text, read
  from an identifier-start token on. When the loop of \<open>read_doi\<close> has stopped, the id is
  the accumulated text without its longest trailing run of the characters \<open>.\<close>, \<open>,\<close> and
  \<open>!\<close>; nothing before that run is removed. On the tokens of \<open>10.1000/xyz123.\<close> the id is
  \<open>10.1000/xyz123\<close>.
\<close>

theorem read_doi_strips_trailing_run:
  assumes "tokenize_finditer t LEXICON = before @ (''doi_start'', m) # tokens"
  shows "read_doi ((''doi_start'', m) # tokens) =
           Inr (Identifier ''doi''
                  (rev (dropWhile is_end_punct
                     (rev (concat (fst (read_loop (\<lambda>_. 0) [m] tokens)))))),
                snd (read_loop (\<lambda>_. 0) [m] tokens)) \<and>
         read_doi (tokenize_finditer ''10.1000/xyz123.'' LEXICON) =
           Inr (Identifier ''doi'' ''10.1000/xyz123'', [])"
proof
  from read_loop_split[of tokens "\<lambda>_. 0" "[m]"] obtain consumed where
    c: "tokens = consumed @ snd (read_loop (\<lambda>_. 0) [m] tokens)"
      "fst (read_loop (\<lambda>_. 0) [m] tokens) = [m] @ map snd consumed"
      "\<forall>tok \<in> set consumed. fst tok \<notin> set terminators" by blast
  have ds: "''doi_start'' \<notin> set terminators" by (simp add: terminators_def)
  have "set consumed \<subseteq> set tokens" using c(1) by (metis Un_upper1 set_append)
  then have toks: "set ((''doi_start'', m) # consumed) \<subseteq> set (scan True LEXICON t)"
    using assms by (auto simp: tokenize_finditer_def)
  have "LF \<notin> set x" if "x \<in> set (m # map snd consumed)" for x
  proof -
    from that have "x = m \<or> (\<exists>tok \<in> set consumed. x = snd tok)" by auto
    then obtain k where k: "(k, x) \<in> set ((''doi_start'', m) # consumed)"
      "k \<notin> set terminators"
    proof
      assume "x = m"
      with ds that[of "''doi_start''"] show ?thesis by simp
    next
      assume "\<exists>tok \<in> set consumed. x = snd tok"
      then obtain tok where tok: "tok \<in> set consumed" "x = snd tok" by blast
      with c(3) have "(fst tok, x) \<in> set ((''doi_start'', m) # consumed)"
        "fst tok \<notin> set terminators" by simp_all
      with that[of "fst tok"] show ?thesis by blast
    qed
    with toks have "(k, x) \<in> set (scan True LEXICON t)" by blast
    from lexer_token_no_LF[OF this k(2)] show ?thesis .
  qed
  then have "LF \<notin> set (concat (fst (read_loop (\<lambda>_. 0) [m] tokens)))"
    using c(2) by auto
  from punct_sub_rstrip[OF this] read_doi_doi_start[of m tokens]
  show "read_doi ((''doi_start'', m) # tokens) =
           Inr (Identifier ''doi''
                  (rev (dropWhile is_end_punct
                     (rev (concat (fst (read_loop (\<lambda>_. 0) [m] tokens)))))),
                snd (read_loop (\<lambda>_. 0) [m] tokens))"
    by simp
next
  show "read_doi (tokenize_finditer ''10.1000/xyz123.'' LEXICON) =
           Inr (Identifier ''doi'' ''10.1000/xyz123'', [])"
    by code_simp
qed

theorem read_doi_strips_trailing_run_witness:
  "tokenize_finditer ''see 10.1000/xyz123.,! now'' LEXICON =
     [(''word'', ''see''), (''whitespace'', '' '')] @ (''doi_start'', ''10.1000/'') #
     [(''word'', ''xyz123''), (''punct'', ''.''), (''punct'', '',''), (''punct'', ''!''),
      (''whitespace'', '' ''), (''word'', ''now'')] \<and>
   read_doi ((''doi_start'', ''10.1000/'') #
     [(''word'', ''xyz123''), (''punct'', ''.''), (''punct'', '',''), (''punct'', ''!''),
      (''whitespace'', '' ''), (''word'', ''now'')]) =
     Inr (Identifier ''doi'' ''10.1000/xyz123'', [(''whitespace'', '' ''), (''word'', ''now'')])"
proof -
  have h: "tokenize_finditer ''see 10.1000/xyz123.,! now'' LEXICON =
     [(''word'', ''see''), (''whitespace'', '' '')] @ (''doi_start'', ''10.1000/'') #
     [(''word'', ''xyz123''), (''punct'', ''.''), (''punct'', '',''), (''punct'', ''!''),
      (''whitespace'', '' ''), (''word'', ''now'')]"
    by code_simp
  have e: "read_loop (\<lambda>_. 0) [''10.1000/'']
      [(''word'', ''xyz123''), (''punct'', ''.''), (''punct'', '',''), (''punct'', ''!''),
       (''whitespace'', '' ''), (''word'', ''now'')] =
      ([''10.1000/'', ''xyz123'', ''.'', '','', ''!''], [(''whitespace'', '' ''), (''word'', ''now'')])"
    by code_simp
  have p: "rev (dropWhile is_end_punct (rev (concat [''10.1000/'', ''xyz123'', ''.'', '','', ''!'']))) =
      ''10.1000/xyz123''"
    by code_simp
  from read_doi_strips_trailing_run[OF h] have
    "read_doi ((''doi_start'', ''10.1000/'') #
     [(''word'', ''xyz123''), (''punct'', ''.''), (''punct'', '',''), (''punct'', ''!''),
      (''whitespace'', '' ''), (''word'', ''now'')]) =
     Inr (Identifier ''doi'' ''10.1000/xyz123'', [(''whitespace'', '' ''), (''word'', ''now'')])"
    unfolding e fst_conv snd_conv p by (rule conjunct1)
  with h show ?thesis by (rule conjI)
qed




text \<open>
  C10 (the guard is strict). \<open>last_end\<close> starts at 0 and a match is extracted only where
  \<open>begin_pos > last_end\<close>. So no yielded span begins at offset 0, and no yielded span
  begins where the span yielded before it ends: it begins strictly later. An identifier at
  the very beginning of the text is skipped, and so is a match that begins exactly at
  \<open>last_end\<close>.
\<close>

theorem extract_search_strict_guard:
  "(\<forall>c \<in> set (fst (extract_search s)). 0 < span_begin (capture_span c)) \<and>
   sorted_wrt (\<lambda>a b. span_end (capture_span a) < span_begin (capture_span b))
     (fst (extract_search s)) \<and>
   extract_search ''10.1000/abc'' = ([], None) \<and>
   extract_search ''10.1000/10.2000/x'' = ([], None)"
proof (intro conjI)
  from extract_loop_spans[of s 0 "finditer DOI_START_RE s"]
  show "\<forall>c \<in> set (fst (extract_search s)). 0 < span_begin (capture_span c)"
    by (simp add: extract_search_def)
next
  from extract_loop_spans[of s 0 "finditer DOI_START_RE s"]
  show "sorted_wrt (\<lambda>a b. span_end (capture_span a) < span_begin (capture_span b))
     (fst (extract_search s))"
    by (simp add: extract_search_def)
next
  show "extract_search ''10.1000/abc'' = ([], None)" by code_simp
next
  show "extract_search ''10.1000/10.2000/x'' = ([], None)" by code_simp
qed

theorem extract_search_strict_guard_witness:
  "fst (extract_search ''a 10.1000/x'') =
     [CaptureResult (Identifier ''doi'' ''10.1000/x'') (Span 2 11)] \<and>
   0 < span_begin (capture_span (CaptureResult (Identifier ''doi'' ''10.1000/x'') (Span 2 11)))"
proof -
  have e: "fst (extract_search ''a 10.1000/x'') =
     [CaptureResult (Identifier ''doi'' ''10.1000/x'') (Span 2 11)]"
    by code_simp
  from extract_search_strict_guard[of "''a 10.1000/x''"]
  have "\<forall>c \<in> set (fst (extract_search ''a 10.1000/x'')). 0 < span_begin (capture_span c)"
    by (rule conjunct1)
  with e show ?thesis by simp
qed

text \<open>
  C5 (the classifier). With the synonyms configured for the language, \<open>is_bibliography\<close> is
  true exactly when some synonym scores at least the cutoff against the section name,
  that is, when the best score is at least the cutoff. The result is a function of the
  arguments and the configuration alone, and calls through the LRU cache of capacity 500,
  keyed by the arguments, return what the function itself returns, whatever calls came
  before; the cache never holds more than 500 entries.
\<close>

theorem is_bibliography_best_score:
  assumes "languages_bibliography cfg language = Some synonyms"
  shows "is_bibliography cfg section_name language score_cutoff =
           Inr (\<exists>c \<in> set synonyms. score_cutoff \<le> fuzzy_score cfg section_name c) \<and>
         (synonyms \<noteq> [] \<longrightarrow>
            is_bibliography cfg section_name language score_cutoff =
              Inr (score_cutoff \<le> Max (fuzzy_score cfg section_name ` set synonyms))) \<and>
         fst (cached_calls cfg [] keys) = map (is_bibliography_key cfg) keys \<and>
         length (snd (cached_calls cfg [] keys)) \<le> 500"
proof (intro conjI impI)
  show e: "is_bibliography cfg section_name language score_cutoff =
      Inr (\<exists>c \<in> set synonyms. score_cutoff \<le> fuzzy_score cfg section_name c)"
    by (rule is_bibliography_exists[OF assms])
  show "is_bibliography cfg section_name language score_cutoff =
      Inr (score_cutoff \<le> Max (fuzzy_score cfg section_name ` set synonyms))"
    if "synonyms \<noteq> []"
  proof -
    from that have "(score_cutoff \<le> Max (fuzzy_score cfg section_name ` set synonyms)) =
        (\<exists>a \<in> fuzzy_score cfg section_name ` set synonyms. score_cutoff \<le> a)"
      by (intro Max_ge_iff) simp_all
    with e show ?thesis by auto
  qed
  from cached_calls_sound[of "[]" cfg keys]
  show "fst (cached_calls cfg [] keys) = map (is_bibliography_key cfg) keys"
    and "length (snd (cached_calls cfg [] keys)) \<le> 500" by simp_all
qed

theorem is_bibliography_best_score_witness:
  "languages_bibliography example_config ''en'' = Some [''References'', ''Bibliography''] \<and>
   is_bibliography example_config ''References'' ''en'' 91 = Inr True \<and>
   is_bibliography example_config ''Early life'' ''en'' 91 = Inr False"
proof -
  have h: "languages_bibliography example_config ''en'' = Some [''References'', ''Bibliography'']"
    by (simp add: example_config_def)
  have sc: "fuzzy_score example_config = (\<lambda>q c. if q = c then 100 else 20)"
    by (simp add: example_config_def)
  from is_bibliography_best_score[OF h, of "''References''" 91]
  have a: "is_bibliography example_config ''References'' ''en'' 91 = Inr True"
    by (simp add: sc)
  from is_bibliography_best_score[OF h, of "''Early life''" 91]
  have b: "is_bibliography example_config ''Early life'' ''en'' 91 = Inr False"
    by (simp add: sc)
  from h a b show ?thesis by simp
qed

text \<open>
  C7 (the counters stay consistent). From the \<open>stats\<close> that \<open>main\<close> creates, before the
  first update of a run and after every single update, every section name has been
  counted in \<open>last_revision\<close> at most as often as in \<open>global\<close>.
\<close>

theorem counters_consistent_at_every_point:
  "\<forall>st \<in> set (stats_trace initial_stats (pipeline_updates cfg language only_last_revision dump)).
     \<forall>name. counter_get (section_names_last_revision st) name
               \<le> counter_get (section_names_global st) name"
proof
  fix st
  assume "st \<in> set (stats_trace initial_stats (pipeline_updates cfg language only_last_revision dump))"
  then have "counters_consistent st"
    unfolding pipeline_updates_def
    by (rule consistent_extract_pages[OF initial_stats_consistent])
  then show "\<forall>name. counter_get (section_names_last_revision st) name
               \<le> counter_get (section_names_global st) name"
    by (simp add: counters_consistent_def)
qed

theorem counters_consistent_at_every_point_witness:
  "length (stats_trace initial_stats (pipeline_updates example_config ''en'' False [example_page])) = 9 \<and>
   list_all
     (\<lambda>st. counter_get (section_names_last_revision st) ''References''
             \<le> counter_get (section_names_global st) ''References'')
     (stats_trace initial_stats (pipeline_updates example_config ''en'' False [example_page]))"
proof -
  have f: "pipeline_updates example_config ''en'' False [example_page] =
      [IncGlobal ''References'', IncRevisionsAnalyzed,
       IncGlobal ''References'', IncRevisionsAnalyzed,
       IncGlobal ''References'', IncLastRevision ''References'', IncRevisionsAnalyzed,
       IncPagesAnalyzed]"
    by (simp add: pipeline_updates_def example_page_def example_bibliography_sections Let_def)
  from counters_consistent_at_every_point[of example_config "''en''" False "[example_page]"]
  have "list_all
     (\<lambda>st. counter_get (section_names_last_revision st) ''References''
             \<le> counter_get (section_names_global st) ''References'')
     (stats_trace initial_stats (pipeline_updates example_config ''en'' False [example_page]))"
    by (simp add: list_all_iff)
  moreover have "length (stats_trace initial_stats
      (pipeline_updates example_config ''en'' False [example_page])) = 9"
    unfolding f by simp
  ultimately show ?thesis by simp
qed

text \<open>
  C4 (counter consistency). Take a dump of one page in namespace 0 with three revisions,
  in each of which exactly one section is classified as bibliography, named \<open>References\<close>.
  Consumed to its end with \<open>only_last_revision\<close> false, the pipeline leaves
  \<open>global["References"] = 3\<close> and \<open>last_revision["References"] = 1\<close>; with
  \<open>only_last_revision\<close> true it leaves \<open>revisions_analyzed = 1\<close> and \<open>pages_analyzed = 1\<close>.
\<close>

theorem counter_consistency:
  assumes "mwp_namespace pg = 0" and "mwp_revisions pg = [r1, r2, r3]"
    and "\<forall>r \<in> set [r1, r2, r3]. \<exists>sec.
           bibliography_sections cfg language r = Inr [sec] \<and> sec_name sec = ''References''"
  shows "counter_get (section_names_global (final_stats cfg language False [pg])) ''References'' = 3 \<and>
         counter_get (section_names_last_revision (final_stats cfg language False [pg])) ''References'' = 1 \<and>
         revisions_analyzed (final_stats cfg language True [pg]) = 1 \<and>
         pages_analyzed (final_stats cfg language True [pg]) = 1"
proof -
  from assms(3) obtain s1 s2 s3 where
    s: "bibliography_sections cfg language r1 = Inr [s1]"
       "bibliography_sections cfg language r2 = Inr [s2]"
       "bibliography_sections cfg language r3 = Inr [s3]" and
    n: "sec_name s1 = ''References''" "sec_name s2 = ''References''" "sec_name s3 = ''References''"
    by auto
  note three = extract_revisions_three[OF s, unfolded n]
  have f: "pipeline_updates cfg language False [pg] =
      [IncGlobal ''References'', IncRevisionsAnalyzed,
       IncGlobal ''References'', IncRevisionsAnalyzed,
       IncGlobal ''References'', IncLastRevision ''References'', IncRevisionsAnalyzed,
       IncPagesAnalyzed]"
    using three(1) three(3)[of False] assms(1,2)
    by (cases "extract_revisions cfg language False [r1, r2, r3]")
       (auto simp: pipeline_updates_def simp del: extract_revisions.simps)
  have t: "pipeline_updates cfg language True [pg] =
      [IncGlobal ''References'', IncLastRevision ''References'', IncRevisionsAnalyzed,
       IncPagesAnalyzed]"
    using three(2) three(3)[of True] assms(1,2)
    by (cases "extract_revisions cfg language True [r1, r2, r3]")
       (auto simp: pipeline_updates_def simp del: extract_revisions.simps)
  show ?thesis
    unfolding final_stats_def f t
    by (simp add: initial_stats_def counter_get_def counter_inc_def)
qed

theorem counter_consistency_witness:
  "mwp_namespace example_page = 0 \<and>
   mwp_revisions example_page = [example_revision 1, example_revision 2, example_revision 3] \<and>
   bibliography_sections example_config ''en'' (example_revision 2) =
     Inr [\<lparr> sec_name = ''References'', sec_level = 2, sec_full_body = ''* a source'' \<rparr>] \<and>
   counter_get (section_names_global (final_stats example_config ''en'' False [example_page]))
     ''References'' = 3 \<and>
   counter_get (section_names_last_revision (final_stats example_config ''en'' False [example_page]))
     ''References'' = 1 \<and>
   revisions_analyzed (final_stats example_config ''en'' True [example_page]) = 1 \<and>
   pages_analyzed (final_stats example_config ''en'' True [example_page]) = 1"
proof -
  have h1: "mwp_namespace example_page = 0" by (simp add: example_page_def)
  have h2: "mwp_revisions example_page = [example_revision 1, example_revision 2, example_revision 3]"
    by (simp add: example_page_def)
  have h3: "\<forall>r \<in> set [example_revision 1, example_revision 2, example_revision 3]. \<exists>sec.
      bibliography_sections example_config ''en'' r = Inr [sec] \<and> sec_name sec = ''References''"
    by (simp add: example_bibliography_sections)
  from counter_consistency[OF h1 h2 h3] h1 h2 example_bibliography_sections[of 2]
  show ?thesis by simp
qed

end
